theory Spec2Isabelle
  imports Main "HOL-Library.Sublist"
begin

section \<open>The ini package: data, errors and the library functions it calls\<close>

text \<open>
  Go strings and byte slices are byte sequences; \<^typ>\<open>string\<close> is a list of 8-bit
  characters, so a Go string is modelled byte for byte.
\<close>

abbreviation LF :: char where "LF \<equiv> CHR 0x0A"
abbreviation CR :: char where "CR \<equiv> CHR 0x0D"
abbreviation BSL :: char where "BSL \<equiv> CHR 0x5C"

text \<open>\<^verbatim>\<open>type Entry struct { Section string; Key string; Value string }\<close>\<close>

record Entry =
  Section :: string
  Key :: string
  Value :: string

text \<open>
  Values of Go's \<^verbatim>\<open>error\<close> interface. \<open>InvalidLine l\<close> is the error built by
  \<^verbatim>\<open>errs.Tag("invalid line").Errorf("%q", linebuf)\<close> (it carries the bytes of
  \<^verbatim>\<open>linebuf\<close>, which the message quotes), \<open>ErrTooLong\<close> is
  \<^verbatim>\<open>bufio.ErrTooLong\<close>, and \<open>Failure x\<close> is any error made outside the package:
  by the callback, the reader or the sink. \<open>None\<close> is \<^verbatim>\<open>nil\<close>.
\<close>

datatype 'x error = InvalidLine string | ErrTooLong | Failure 'x

subsection \<open>Index and slice expressions\<close>

text \<open>
  \<^verbatim>\<open>s[i]\<close> and \<^verbatim>\<open>s[lo:hi]\<close> panic when out of range; \<open>None\<close> is the panic.
  (Go allows \<^verbatim>\<open>hi\<close> up to the capacity; every slice expression of the package
  has \<^verbatim>\<open>hi \<le> len(s)\<close>.)
\<close>

definition index :: "string \<Rightarrow> int \<Rightarrow> char option" where
  "index s i = (if 0 \<le> i \<and> i < int (length s) then Some (s ! nat i) else None)"

definition slice :: "string \<Rightarrow> int \<Rightarrow> int \<Rightarrow> string option" where
  "slice s lo hi =
     (if 0 \<le> lo \<and> lo \<le> hi \<and> hi \<le> int (length s)
      then Some (take (nat (hi - lo)) (drop (nat lo) s)) else None)"

subsection \<open>bytes.IndexByte, bytes.TrimSpace, strings.ReplaceAll\<close>

text \<open>\<^verbatim>\<open>bytes.IndexByte(b, c)\<close>: the index of the first \<^verbatim>\<open>c\<close> in \<^verbatim>\<open>b\<close>, or -1.\<close>

fun IndexByte :: "string \<Rightarrow> char \<Rightarrow> int" where
  "IndexByte [] c = -1"
| "IndexByte (x # xs) c =
     (if x = c then 0 else (let i = IndexByte xs c in if i < 0 then -1 else i + 1))"

text \<open>
  \<^verbatim>\<open>bytes.TrimSpace\<close> removes leading and trailing white space as defined by
  \<^verbatim>\<open>unicode.IsSpace\<close>, reading the bytes as UTF-8. The runes with that property are
  U+0009 to U+000D, U+0020, U+0085, U+00A0, U+1680, U+2000 to U+200A, U+2028, U+2029,
  U+202F, U+205F and U+3000; \<open>space_runes\<close> lists their UTF-8 encodings. A rune is
  decoded as one of them exactly when the bytes at hand are its encoding.
\<close>

definition space_runes :: "string list" where
  "space_runes =
     [[CHR 0x09], [CHR 0x0A], [CHR 0x0B], [CHR 0x0C], [CHR 0x0D], [CHR 0x20],
      [CHR 0xC2, CHR 0x85], [CHR 0xC2, CHR 0xA0],
      [CHR 0xE1, CHR 0x9A, CHR 0x80],
      [CHR 0xE2, CHR 0x80, CHR 0x80], [CHR 0xE2, CHR 0x80, CHR 0x81],
      [CHR 0xE2, CHR 0x80, CHR 0x82], [CHR 0xE2, CHR 0x80, CHR 0x83],
      [CHR 0xE2, CHR 0x80, CHR 0x84], [CHR 0xE2, CHR 0x80, CHR 0x85],
      [CHR 0xE2, CHR 0x80, CHR 0x86], [CHR 0xE2, CHR 0x80, CHR 0x87],
      [CHR 0xE2, CHR 0x80, CHR 0x88], [CHR 0xE2, CHR 0x80, CHR 0x89],
      [CHR 0xE2, CHR 0x80, CHR 0x8A],
      [CHR 0xE2, CHR 0x80, CHR 0xA8], [CHR 0xE2, CHR 0x80, CHR 0xA9],
      [CHR 0xE2, CHR 0x80, CHR 0xAF],
      [CHR 0xE2, CHR 0x81, CHR 0x9F],
      [CHR 0xE3, CHR 0x80, CHR 0x80]]"

text \<open>The width in bytes of a white-space rune at the start (at the end) of \<open>s\<close>; 0 when there is none.\<close>

definition leading_space :: "string \<Rightarrow> nat" where
  "leading_space s = (case find (\<lambda>p. prefix p s) space_runes of None \<Rightarrow> 0 | Some p \<Rightarrow> length p)"

definition trailing_space :: "string \<Rightarrow> nat" where
  "trailing_space s = (case find (\<lambda>p. suffix p s) space_runes of None \<Rightarrow> 0 | Some p \<Rightarrow> length p)"

lemma leading_space_nonempty: "leading_space s \<noteq> 0 \<Longrightarrow> s \<noteq> []"
  by (auto simp: leading_space_def space_runes_def find_Some_iff split: option.splits)

lemma trailing_space_nonempty: "trailing_space s \<noteq> 0 \<Longrightarrow> s \<noteq> []"
  by (auto simp: trailing_space_def space_runes_def find_Some_iff split: option.splits)

text \<open>Leading white space is removed rune by rune, then trailing white space.\<close>

function TrimLeft :: "string \<Rightarrow> string" where
  "TrimLeft s = (if leading_space s = 0 then s else TrimLeft (drop (leading_space s) s))"
  by pat_completeness auto
termination
proof (relation "measure length")
  fix s assume "leading_space s \<noteq> 0"
  then have "s \<noteq> []" by (rule leading_space_nonempty)
  with \<open>leading_space s \<noteq> 0\<close> show "(drop (leading_space s) s, s) \<in> measure length" by simp
qed simp

function TrimRight :: "string \<Rightarrow> string" where
  "TrimRight s =
     (if trailing_space s = 0 then s else TrimRight (take (length s - trailing_space s) s))"
  by pat_completeness auto
termination
proof (relation "measure length")
  fix s assume "trailing_space s \<noteq> 0"
  then have "s \<noteq> []" by (rule trailing_space_nonempty)
  with \<open>trailing_space s \<noteq> 0\<close>
  show "(take (length s - trailing_space s) s, s) \<in> measure length" by simp
qed simp

declare TrimLeft.simps [simp del] TrimRight.simps [simp del]

definition TrimSpace :: "string \<Rightarrow> string" where
  "TrimSpace s = TrimRight (TrimLeft s)"

text \<open>\<^verbatim>\<open>func escape(x string) string { return strings.ReplaceAll(x, "\n", "\\\n") }\<close>\<close>

fun escape :: "string \<Rightarrow> string" where
  "escape [] = []"
| "escape (c # cs) = (if c = LF then BSL # LF # escape cs else c # escape cs)"

subsection \<open>bufio.Scanner with the default split function\<close>

text \<open>
  An \<^verbatim>\<open>io.Reader\<close> read to its end: the bytes it delivers, and the error it ends
  with (\<open>None\<close> for \<^verbatim>\<open>io.EOF\<close>). The scanner treats the bytes before a read error
  as it treats the bytes before the end of the input, and reports the error when no token
  is left.
\<close>

record 'x Reader =
  content :: string
  failure :: "'x error option"

text \<open>\<^verbatim>\<open>bufio.MaxScanTokenSize = 64 * 1024\<close>, the size the scanner's buffer grows to.\<close>

definition MaxScanTokenSize :: int where
  "MaxScanTokenSize = 64 * 1024"

definition dropCR :: "string \<Rightarrow> string" where
  "dropCR data = (if length data > 0 \<and> last data = CR then butlast data else data)"

text \<open>
  The tokens \<^verbatim>\<open>scanner.Scan()\<close> delivers from the bytes still unread, with
  \<^verbatim>\<open>bufio.ScanLines\<close>: each line up to the next \<^verbatim>\<open>\n\<close> without one trailing
  \<^verbatim>\<open>\r\<close>, and the final line also when no \<^verbatim>\<open>\n\<close> ends it, unless it is empty.
  When the buffer is full (\<open>MaxScanTokenSize\<close> bytes) and holds no \<^verbatim>\<open>\n\<close>, the
  scanner stops with \<^verbatim>\<open>ErrTooLong\<close>: the flag of the result.
\<close>

function scan_lines :: "string \<Rightarrow> string list \<times> bool" where
  "scan_lines data =
     (if data = [] then ([], False)
      else let line = takeWhile (\<lambda>c. c \<noteq> LF) data; rest = dropWhile (\<lambda>c. c \<noteq> LF) data in
        if MaxScanTokenSize \<le> int (length line) then ([], True)
        else if rest = [] then ([dropCR line], False)
        else let (toks, long) = scan_lines (tl rest) in (dropCR line # toks, long))"
  by pat_completeness auto
termination
proof (relation "measure length")
  fix data :: string and rest
  assume "data \<noteq> []" and rest: "rest = dropWhile (\<lambda>c. c \<noteq> LF) data" and "rest \<noteq> []"
  then have "length (tl rest) < length rest" by simp
  also have "length rest \<le> length data" using rest by (simp add: length_dropWhile_le)
  finally show "(tl rest, data) \<in> measure length" by simp
qed simp

declare scan_lines.simps [simp del]

definition Scanner_tokens :: "'x Reader \<Rightarrow> string list" where
  "Scanner_tokens r = fst (scan_lines (content r))"

text \<open>\<^verbatim>\<open>scanner.Err()\<close> once \<^verbatim>\<open>Scan\<close> has returned false.\<close>

definition Scanner_Err :: "'x Reader \<Rightarrow> 'x error option" where
  "Scanner_Err r = (if snd (scan_lines (content r)) then Some ErrTooLong else failure r)"

section \<open>Read\<close>

text \<open>
  The callback is a closure: it reads and changes the caller's state \<open>'s\<close>, and returns
  an error or \<^verbatim>\<open>nil\<close>. It is taken to return: a callback that panics or runs
  forever is outside the model, as is a sink or a producer that does.
\<close>

type_synonym ('s, 'x) callback = "Entry \<Rightarrow> 's \<Rightarrow> 'x error option \<times> 's"

text \<open>
  One pass of the loop in \<^verbatim>\<open>Read\<close>, on the state \<^verbatim>\<open>(linebuf, ent)\<close> and the
  caller's state: it ends with \<^verbatim>\<open>continue\<close>, with \<^verbatim>\<open>return err\<close>, or in a panic
  of an index or slice expression. \<open>tok\<close> is \<^verbatim>\<open>scanner.Bytes()\<close>, which the first
  statement appends to \<^verbatim>\<open>linebuf\<close>; \<^verbatim>\<open>linebuf[:0]\<close> is the empty buffer. The bytes
  \<^verbatim>\<open>linebuf[len(linebuf)-1]\<close> and \<^verbatim>\<open>linebuf[0]\<close>, which the source reads in two
  conditions each with the buffer unchanged in between, are read once. The blank branch
  leaves \<^verbatim>\<open>linebuf\<close> as it is: the source has no reset there.
\<close>

datatype ('x, 'st) flow = Continue 'st | Return "'x error" 'st | Panic

definition body :: "('s, 'x) callback \<Rightarrow> string \<Rightarrow> string \<times> Entry \<times> 's
    \<Rightarrow> ('x, string \<times> Entry \<times> 's) flow" where
  "body cb tok st =
     (case st of (linebuf0, ent, u) \<Rightarrow>
      let linebuf = linebuf0 @ tok; n = int (length linebuf) in
      if length linebuf = 0 \<or> length (TrimSpace linebuf) = 0 then Continue (linebuf, ent, u)
      else
       (case index linebuf (n - 1) of
          None \<Rightarrow> Panic
        | Some cl \<Rightarrow>
            if cl = BSL then Continue (linebuf[nat (n - 1) := LF], ent, u)
            else
             (case index linebuf 0 of
                None \<Rightarrow> Panic
              | Some c0 \<Rightarrow>
                  if c0 = CHR ''#'' then Continue ([], ent, u)
                  else if c0 = CHR ''['' \<and> cl = CHR '']'' then
                   (case slice linebuf 1 (n - 1) of
                      None \<Rightarrow> Panic
                    | Some sec \<Rightarrow> Continue ([], ent\<lparr>Section := sec\<rparr>, u))
                  else
                   (let idx = IndexByte linebuf (CHR ''='') in
                    if idx \<ge> 0 then
                     (case slice linebuf 0 idx of
                        None \<Rightarrow> Panic
                      | Some k \<Rightarrow>
                         (case slice linebuf (idx + 1) n of
                            None \<Rightarrow> Panic
                          | Some v \<Rightarrow>
                             (let ent' = ent\<lparr>Key := TrimSpace k, Value := TrimSpace v\<rparr> in
                              case cb ent' u of
                                (Some e, u') \<Rightarrow> Return e (linebuf, ent', u')
                              | (None, u') \<Rightarrow> Continue ([], ent', u'))))
                    else Return (InvalidLine linebuf) (linebuf, ent, u)))))"

fun loop :: "('s, 'x) callback \<Rightarrow> string list \<Rightarrow> string \<times> Entry \<times> 's
    \<Rightarrow> ('x, string \<times> Entry \<times> 's) flow" where
  "loop cb [] st = Continue st"
| "loop cb (tok # toks) st =
     (case body cb tok st of
        Continue st' \<Rightarrow> loop cb toks st'
      | Return e st' \<Rightarrow> Return e st'
      | Panic \<Rightarrow> Panic)"

text \<open>What a call of \<^verbatim>\<open>Read\<close> does: it returns an error or nil, or it panics.\<close>

datatype ('x, 's) run = Returns "'x error option" 's | Panics

text \<open>
  The loop of \<^verbatim>\<open>Read\<close> on the tokens the scanner delivers, from the initial
  \<^verbatim>\<open>linebuf\<close> and \<^verbatim>\<open>ent\<close>, and the final \<^verbatim>\<open>return scanner.Err()\<close>, whose
  value is \<open>serr\<close>.
\<close>

definition Read_lines :: "string list \<Rightarrow> 'x error option \<Rightarrow> ('s, 'x) callback \<Rightarrow> 's
    \<Rightarrow> ('x, 's) run" where
  "Read_lines toks serr cb u =
     (case loop cb toks ([], \<lparr>Section = [], Key = [], Value = []\<rparr>, u) of
        Continue (linebuf, ent, u') \<Rightarrow> Returns serr u'
      | Return e (linebuf, ent, u') \<Rightarrow> Returns (Some e) u'
      | Panic \<Rightarrow> Panics)"

definition Read :: "'x Reader \<Rightarrow> ('s, 'x) callback \<Rightarrow> 's \<Rightarrow> ('x, 's) run" where
  "Read r cb u = Read_lines (Scanner_tokens r) (Scanner_Err r) cb u"

section \<open>Write\<close>

text \<open>
  \<^verbatim>\<open>w.Write(p)\<close> of the sink, an \<^verbatim>\<open>io.Writer\<close>: it changes the sink's state \<open>'w\<close>
  and returns an error or \<^verbatim>\<open>nil\<close> (the byte count it also returns is dropped by
  every caller here).
\<close>

type_synonym ('w, 'x) writer = "string \<Rightarrow> 'w \<Rightarrow> 'x error option \<times> 'w"

text \<open>\<^verbatim>\<open>type errWriter struct { err error; w io.Writer }\<close>, with the state of the sink.\<close>

record ('w, 'x) errWriter =
  err :: "'x error option"
  w :: 'w

definition errWriter_Write :: "('w, 'x) writer \<Rightarrow> string \<Rightarrow> ('w, 'x) errWriter \<Rightarrow> ('w, 'x) errWriter" where
  "errWriter_Write wr p e =
     (if err e \<noteq> None then e
      else case wr p (w e) of (r, w') \<Rightarrow> e\<lparr>err := r, w := w'\<rparr>)"

text \<open>
  \<^verbatim>\<open>fmt.Fprint\<close>, \<^verbatim>\<open>fmt.Fprintf\<close> and \<^verbatim>\<open>fmt.Fprintln\<close> format into a buffer and
  hand it to the writer in one \<^verbatim>\<open>Write\<close> call, whose results \<^verbatim>\<open>emit\<close> ignores;
  \<open>p\<close> is the formatted text.
\<close>

definition Fprint :: "('w, 'x) writer \<Rightarrow> string \<Rightarrow> ('w, 'x) errWriter \<Rightarrow> ('w, 'x) errWriter" where
  "Fprint wr p e = errWriter_Write wr p e"

text \<open>
  The closure passed to the producer, on the variables \<^verbatim>\<open>section\<close>, \<^verbatim>\<open>wrote\<close> and
  \<^verbatim>\<open>ew\<close> it captures.
\<close>

definition emit :: "('w, 'x) writer \<Rightarrow> Entry \<Rightarrow> string \<times> bool \<times> ('w, 'x) errWriter
    \<Rightarrow> string \<times> bool \<times> ('w, 'x) errWriter" where
  "emit wr ent st =
     (case st of (section, wrote, ew) \<Rightarrow>
      let (section, ew) =
            (if Section ent \<noteq> section then
               let ew = (if wrote then Fprint wr [LF] ew else ew);
                   ew = Fprint wr (''['' @ escape (Section ent) @ '']'' @ [LF]) ew
               in (Section ent, ew)
             else (section, ew));
          ew = (if length (Key ent) > 0 then Fprint wr (escape (Key ent) @ '' '') ew else ew);
          ew = Fprint wr ''='' ew;
          ew = (if length (Value ent) > 0 then Fprint wr ('' '' @ escape (Value ent)) ew else ew);
          ew = Fprint wr [LF] ew
      in (section, True, ew))"

text \<open>
  \<^verbatim>\<open>Write\<close>: the producer \<^verbatim>\<open>cb\<close> calls \<^verbatim>\<open>emit\<close> on each entry of \<open>ents\<close>
  in turn and returns; the result is \<^verbatim>\<open>ew.err\<close>, with the state the sink is left in.
\<close>

definition Write :: "('w, 'x) writer \<Rightarrow> 'w \<Rightarrow> Entry list \<Rightarrow> 'x error option \<times> 'w" where
  "Write wr w0 ents =
     (case fold (emit wr) ents ([], False, \<lparr>err = None, w = w0\<rparr>) of
        (section, wrote, ew) \<Rightarrow> (err ew, w ew))"

text \<open>A \<^verbatim>\<open>bytes.Buffer\<close> as sink: \<^verbatim>\<open>Write\<close> appends and returns nil.\<close>

definition Buffer_Write :: "(string, 'x) writer" where
  "Buffer_Write p buf = (None, buf @ p)"

text \<open>The callback of the tests: it appends the entry to a list and returns nil.\<close>

definition collect :: "(Entry list, 'x) callback" where
  "collect ent got = (None, got @ [ent])"

section \<open>Observing the calls\<close>




text \<open>
  A sink is observed in the same way: \<open>logged_writer wr\<close> writes as \<open>wr\<close> does and
  appends the bytes it was given and the result it returned.
\<close>

definition logged_writer :: "('w, 'x) writer \<Rightarrow> ('w \<times> (string \<times> 'x error option) list, 'x) writer" where
  "logged_writer wr p st =
     (case st of (s, log) \<Rightarrow> case wr p s of (r, s') \<Rightarrow> (r, (s', log @ [(p, r)])))"

text \<open>What holds of the error writer over a logged sink between two calls of \<open>Fprint\<close>.\<close>

definition ew_inv :: "('w \<times> (string \<times> 'x error option) list, 'x) errWriter \<Rightarrow> bool" where
  "ew_inv e \<longleftrightarrow>
     (\<forall>c\<in>set (butlast (snd (w e))). snd c = None) \<and>
     err e = (if snd (w e) = [] then None else snd (last (snd (w e))))"

definition ew_sim :: "('w, 'x) errWriter \<Rightarrow> ('w \<times> (string \<times> 'x error option) list, 'x) errWriter \<Rightarrow> bool" where
  "ew_sim e el \<longleftrightarrow> err e = err el \<and> w e = fst (w el)"

definition ew_rel :: "('w, 'x) errWriter \<Rightarrow> ('w \<times> (string \<times> 'x error option) list, 'x) errWriter \<Rightarrow> bool" where
  "ew_rel e el \<longleftrightarrow> ew_inv el \<and> ew_sim e el"

section \<open>Writing and reading back\<close>

text \<open>
  The round trip of \<^verbatim>\<open>TestWrite_RoundTrip\<close>: the entries are written into a buffer
  with \<^verbatim>\<open>Write\<close>, the buffer is read with \<^verbatim>\<open>Read\<close> and the collecting callback.
  The result is the error of \<^verbatim>\<open>Write\<close> and what \<^verbatim>\<open>Read\<close> did.
\<close>

definition RoundTrip :: "Entry list \<Rightarrow> unit error option \<times> (unit, Entry list) run" where
  "RoundTrip ents =
     (case Write Buffer_Write [] ents of
        (werr, buf) \<Rightarrow> (werr, Read \<lparr>content = buf, failure = None\<rparr> collect []))"

text \<open>
  A string is trimmed when no white-space rune starts or ends it. The entries the parser
  emits have a trimmed key without \<open>=\<close> and a trimmed value.
\<close>

definition trimmed :: "string \<Rightarrow> bool" where
  "trimmed s \<longleftrightarrow> leading_space s = 0 \<and> trailing_space s = 0"

definition parsed :: "Entry \<Rightarrow> bool" where
  "parsed e \<longleftrightarrow> trimmed (Key e) \<and> trimmed (Value e) \<and> CHR ''='' \<notin> set (Key e)"

text \<open>
  The entries whose line \<^verbatim>\<open>Read\<close> takes for an entry again: the key does not begin
  with \<open>#\<close>, the line is not bracketed (a key that begins with \<open>[\<close> and a value that
  ends with \<open>]\<close>), and the value does not end in a backslash.
\<close>

definition reparsable :: "Entry \<Rightarrow> bool" where
  "reparsable e \<longleftrightarrow>
     \<not> (Key e \<noteq> [] \<and> hd (Key e) = CHR ''#'') \<and>
     \<not> (Key e \<noteq> [] \<and> hd (Key e) = CHR ''['' \<and> Value e \<noteq> [] \<and> last (Value e) = CHR '']'') \<and>
     \<not> (Value e \<noteq> [] \<and> last (Value e) = BSL)"

text \<open>The scanner does not stop on the text with \<^verbatim>\<open>ErrTooLong\<close>.\<close>

definition within_token_limit :: "string \<Rightarrow> bool" where
  "within_token_limit text \<longleftrightarrow> \<not> snd (scan_lines text)"

text \<open>
  The line \<^verbatim>\<open>emit\<close> writes for an entry, before escaping, and the text it writes for
  a list of entries from the state \<^verbatim>\<open>section\<close>, \<^verbatim>\<open>wrote\<close>: used to describe the
  buffer after \<^verbatim>\<open>Write\<close> (lemma \<open>Write_Buffer\<close>).
\<close>

definition entry_line :: "Entry \<Rightarrow> string" where
  "entry_line e =
     (if Key e \<noteq> [] then Key e @ '' '' else []) @ ''='' @
     (if Value e \<noteq> [] then '' '' @ Value e else [])"

fun render :: "string \<Rightarrow> bool \<Rightarrow> Entry list \<Rightarrow> string" where
  "render sec wrote [] = []"
| "render sec wrote (e # es) =
     (if Section e \<noteq> sec
      then (if wrote then [LF] else []) @ escape (''['' @ Section e @ '']'') @ [LF] else []) @
     escape (entry_line e) @ [LF] @ render (Section e) True es"

section \<open>Facts about the library functions and the loop body\<close>

lemma leading_space_Nil [simp]: "leading_space [] = 0"
  using leading_space_nonempty [of "[]"] by auto

lemma trailing_space_Nil [simp]: "trailing_space [] = 0"
  using trailing_space_nonempty [of "[]"] by auto

lemma TrimSpace_Nil [simp]: "TrimSpace [] = []"
  by (simp add: TrimSpace_def TrimLeft.simps TrimRight.simps)

lemma index_last: "s \<noteq> [] \<Longrightarrow> index s (int (length s) - 1) = Some (last s)"
  by (cases s rule: rev_cases) (auto simp: index_def nat_diff_distrib' nth_append)

lemma index_hd: "s \<noteq> [] \<Longrightarrow> index s 0 = Some (hd s)"
  by (cases s) (auto simp: index_def)

lemma update_last: "s \<noteq> [] \<Longrightarrow> s[nat (int (length s) - 1) := c] = butlast s @ [c]"
  by (cases s rule: rev_cases) (auto simp: nat_diff_distrib')

lemma slice_inner:
  assumes "2 \<le> length s"
  shows "slice s 1 (int (length s) - 1) = Some (butlast (tl s))"
proof -
  have "take (length s - 2) (drop 1 s) = butlast (tl s)"
    by (simp add: butlast_conv_take drop_Suc numeral_2_eq_2)
  moreover have "nat (int (length s) - 1 - 1) = length s - 2" by simp
  ultimately show ?thesis using assms by (simp add: slice_def)
qed

lemma IndexByte_eq:
  "IndexByte s c = (if c \<in> set s then int (length (takeWhile (\<lambda>x. x \<noteq> c) s)) else -1)"
  by (induction s) (auto simp: Let_def)

lemma length_takeWhile_neq: "c \<in> set s \<Longrightarrow> length (takeWhile (\<lambda>x. x \<noteq> c) s) < length s"
  by (induction s) auto

lemma slice_prefix: "k \<le> length s \<Longrightarrow> slice s 0 (int k) = Some (take k s)"
  by (simp add: slice_def)

lemma slice_suffix: "k \<le> length s \<Longrightarrow> slice s (int k) (int (length s)) = Some (drop k s)"
  by (simp add: slice_def nat_diff_distrib')

lemma slice_key:
  "c \<in> set s \<Longrightarrow> slice s 0 (IndexByte s c) = Some (takeWhile (\<lambda>x. x \<noteq> c) s)"
  using slice_prefix [of "length (takeWhile (\<lambda>x. x \<noteq> c) s)" s]
  by (simp add: IndexByte_eq length_takeWhile_le takeWhile_eq_take [symmetric])

lemma slice_value:
  assumes "c \<in> set s"
  shows "slice s (IndexByte s c + 1) (int (length s)) = Some (tl (dropWhile (\<lambda>x. x \<noteq> c) s))"
proof -
  let ?k = "length (takeWhile (\<lambda>x. x \<noteq> c) s)"
  have lt: "Suc ?k \<le> length s"
    using length_takeWhile_neq [OF assms] by simp
  have "drop (Suc ?k) s = tl (dropWhile (\<lambda>x. x \<noteq> c) s)"
    by (simp add: dropWhile_eq_drop drop_Suc tl_drop)
  moreover have "IndexByte s c + 1 = int (Suc ?k)"
    using assms by (simp add: IndexByte_eq)
  ultimately show ?thesis using slice_suffix [OF lt] by (simp only:)
qed

lemma bracketed_length:
  assumes "s \<noteq> []" "hd s = CHR ''[''" "last s = CHR '']''"
  shows "2 \<le> length s"
proof (cases s)
  case (Cons a t)
  with assms have "t \<noteq> []" by auto
  with Cons show ?thesis by (cases t) auto
qed (use assms in simp)

text \<open>The loop body sees only the line buffer with the token appended.\<close>

lemma body_append: "body cb tok (linebuf0, ent, u) = body cb (linebuf0 @ tok) ([], ent, u)"
  by (simp add: body_def)

text \<open>The loop body without its index arithmetic: no index or slice expression is out of range.\<close>

lemma body_Nil_eq:
  "body cb lb ([], ent, u) =
     (if TrimSpace lb = [] then Continue (lb, ent, u)
      else if last lb = BSL then Continue (butlast lb @ [LF], ent, u)
      else if hd lb = CHR ''#'' then Continue ([], ent, u)
      else if hd lb = CHR ''['' \<and> last lb = CHR '']'' then
        Continue ([], ent\<lparr>Section := butlast (tl lb)\<rparr>, u)
      else if CHR ''='' \<in> set lb then
        (let ent' = ent\<lparr>Key := TrimSpace (takeWhile (\<lambda>c. c \<noteq> CHR ''='') lb),
                        Value := TrimSpace (tl (dropWhile (\<lambda>c. c \<noteq> CHR ''='') lb))\<rparr> in
         case cb ent' u of
           (Some e, u') \<Rightarrow> Return e (lb, ent', u')
         | (None, u') \<Rightarrow> Continue ([], ent', u'))
      else Return (InvalidLine lb) (lb, ent, u))"
proof -
  consider (blank) "TrimSpace lb = []"
    | (cont) "TrimSpace lb \<noteq> []" "last lb = BSL"
    | (comment) "TrimSpace lb \<noteq> []" "last lb \<noteq> BSL" "hd lb = CHR ''#''"
    | (header) "TrimSpace lb \<noteq> []" "last lb \<noteq> BSL" "hd lb \<noteq> CHR ''#''"
        "hd lb = CHR ''[''" "last lb = CHR '']''"
    | (entry) "TrimSpace lb \<noteq> []" "last lb \<noteq> BSL" "hd lb \<noteq> CHR ''#''"
        "\<not> (hd lb = CHR ''['' \<and> last lb = CHR '']'')" "CHR ''='' \<in> set lb"
    | (invalid) "TrimSpace lb \<noteq> []" "last lb \<noteq> BSL" "hd lb \<noteq> CHR ''#''"
        "\<not> (hd lb = CHR ''['' \<and> last lb = CHR '']'')" "CHR ''='' \<notin> set lb"
    by blast
  then show ?thesis
  proof cases
    case blank
    then show ?thesis by (simp add: body_def Let_def)
  next
    case cont
    then have ne: "lb \<noteq> []" by auto
    with cont show ?thesis
      by (simp add: body_def Let_def index_last update_last)
  next
    case comment
    then have ne: "lb \<noteq> []" by auto
    with comment show ?thesis
      by (simp add: body_def Let_def index_last index_hd)
  next
    case header
    then have ne: "lb \<noteq> []" by auto
    with header have "2 \<le> length lb" using bracketed_length by blast
    from slice_inner [OF this] header ne show ?thesis
      by (simp add: body_def Let_def index_last index_hd)
  next
    case entry
    then have ne: "lb \<noteq> []" by auto
    have ge: "0 \<le> IndexByte lb (CHR ''='')"
      using entry(5) by (simp add: IndexByte_eq)
    have nb: "(hd lb = CHR ''['' \<and> last lb = CHR '']'') = False"
      using entry(4) by simp
    from slice_key [OF entry(5)] slice_value [OF entry(5)] entry(1-3,5) ne ge show ?thesis
      by (simp add: body_def Let_def index_last index_hd nb split: prod.splits option.splits)
  next
    case invalid
    then have ne: "lb \<noteq> []" by auto
    have "\<not> 0 \<le> IndexByte lb (CHR ''='')"
      using invalid(5) by (simp add: IndexByte_eq)
    moreover have nb: "(hd lb = CHR ''['' \<and> last lb = CHR '']'') = False"
      using invalid(4) by simp
    ultimately show ?thesis using invalid(1-3,5) ne
      by (simp add: body_def Let_def index_last index_hd nb)
  qed
qed

lemma leading_space_cases:
  obtains (none) "leading_space s = 0" "\<forall>p\<in>set space_runes. \<not> prefix p s"
  | (some) p where "p \<in> set space_runes" "prefix p s" "leading_space s = length p" "p \<noteq> []"
proof (cases "find (\<lambda>p. prefix p s) space_runes")
  case None
  then have "leading_space s = 0" by (simp add: leading_space_def)
  moreover from None have "\<forall>p\<in>set space_runes. \<not> prefix p s" by (simp add: find_None_iff)
  ultimately show ?thesis by (rule none)
next
  case (Some p)
  then have "p \<in> set space_runes" "prefix p s"
    by (auto simp: find_Some_iff)
  moreover from this have "p \<noteq> []" by (auto simp: space_runes_def)
  ultimately show ?thesis using some Some by (auto simp: leading_space_def)
qed

lemma trailing_space_cases:
  obtains (none) "trailing_space s = 0" "\<forall>p\<in>set space_runes. \<not> suffix p s"
  | (some) p where "p \<in> set space_runes" "suffix p s" "trailing_space s = length p" "p \<noteq> []"
proof (cases "find (\<lambda>p. suffix p s) space_runes")
  case None
  then have "trailing_space s = 0" by (simp add: trailing_space_def)
  moreover from None have "\<forall>p\<in>set space_runes. \<not> suffix p s" by (simp add: find_None_iff)
  ultimately show ?thesis by (rule none)
next
  case (Some p)
  then have "p \<in> set space_runes" "suffix p s"
    by (auto simp: find_Some_iff)
  moreover from this have "p \<noteq> []" by (auto simp: space_runes_def)
  ultimately show ?thesis using some Some by (auto simp: trailing_space_def)
qed

text \<open>A byte that occurs in no white-space rune survives trimming.\<close>

lemma TrimLeft_keeps:
  assumes "\<forall>p\<in>set space_runes. c \<notin> set p"
  shows "c \<in> set s \<Longrightarrow> c \<in> set (TrimLeft s)"
proof (induction s rule: TrimLeft.induct)
  case (1 s)
  show ?case
  proof (cases s rule: leading_space_cases)
    case none
    with 1 show ?thesis by (simp add: TrimLeft.simps)
  next
    case (some p)
    then obtain t where s: "s = p @ t" by (auto simp: prefix_def)
    with some assms 1(2) have "c \<in> set t" by auto
    moreover have dr: "drop (leading_space s) s = t" using some s by simp
    moreover have nz: "leading_space s \<noteq> 0" using some by simp
    ultimately have "c \<in> set (TrimLeft (drop (leading_space s) s))" using 1(1) by simp
    with nz show ?thesis by (subst TrimLeft.simps) simp
  qed
qed

lemma TrimRight_keeps:
  assumes "\<forall>p\<in>set space_runes. c \<notin> set p"
  shows "c \<in> set s \<Longrightarrow> c \<in> set (TrimRight s)"
proof (induction s rule: TrimRight.induct)
  case (1 s)
  show ?case
  proof (cases s rule: trailing_space_cases)
    case none
    with 1 show ?thesis by (simp add: TrimRight.simps)
  next
    case (some p)
    then obtain t where s: "s = t @ p" by (auto simp: suffix_def)
    with some assms 1(2) have "c \<in> set t" by auto
    moreover have dr: "take (length s - trailing_space s) s = t" using some s by simp
    moreover have nz: "trailing_space s \<noteq> 0" using some by simp
    ultimately have "c \<in> set (TrimRight (take (length s - trailing_space s) s))"
      using 1(1) by simp
    with nz show ?thesis by (subst TrimRight.simps) simp
  qed
qed

lemma TrimSpace_keeps:
  "\<forall>p\<in>set space_runes. c \<notin> set p \<Longrightarrow> c \<in> set s \<Longrightarrow> c \<in> set (TrimSpace s)"
  by (simp add: TrimSpace_def TrimLeft_keeps TrimRight_keeps)

lemma nonblank_if_mem:
  "c \<in> set s \<Longrightarrow> \<forall>p\<in>set space_runes. c \<notin> set p \<Longrightarrow> TrimSpace s \<noteq> []"
  using TrimSpace_keeps [of c s] by auto

lemma plain_bytes:
  "\<forall>p\<in>set space_runes. BSL \<notin> set p"
  "\<forall>p\<in>set space_runes. CHR ''['' \<notin> set p"
  "\<forall>p\<in>set space_runes. CHR '']'' \<notin> set p"
  "\<forall>p\<in>set space_runes. CHR ''='' \<notin> set p"
  "\<forall>p\<in>set space_runes. CHR ''#'' \<notin> set p"
  by (simp_all add: space_runes_def)

lemma loop_append:
  "loop cb (xs @ ys) st =
     (case loop cb xs st of Continue st' \<Rightarrow> loop cb ys st' | Return e st' \<Rightarrow> Return e st' | Panic \<Rightarrow> Panic)"
  by (induction xs arbitrary: st) (auto split: flow.splits)

lemma body_no_panic: "body cb tok st \<noteq> Panic"
  by (cases st) (auto simp: body_append [of cb tok] body_Nil_eq Let_def split: prod.splits option.splits)

lemma loop_no_panic: "loop cb toks st \<noteq> Panic"
  by (induction toks arbitrary: st) (auto simp: body_no_panic split: flow.splits)

text \<open>The branches of the loop body, one by one, on the line \<open>lb\<close> it classifies.\<close>

lemma body_blank:
  "TrimSpace (linebuf @ tok) = [] \<Longrightarrow>
   body cb tok (linebuf, ent, u) = Continue (linebuf @ tok, ent, u)"
  by (simp add: body_append [of cb tok] body_Nil_eq)

lemma body_continuation:
  assumes "tok \<noteq> []" "last tok = BSL"
  shows "body cb tok (linebuf, ent, u) = Continue (linebuf @ butlast tok @ [LF], ent, u)"
proof -
  define lb where "lb = linebuf @ tok"
  have l: "last lb = BSL" and b: "butlast lb = linebuf @ butlast tok"
    using assms by (simp_all add: lb_def butlast_append)
  have "last tok \<in> set tok" using assms(1) by (rule last_in_set)
  then have "BSL \<in> set lb" using assms(2) by (simp add: lb_def)
  then have "TrimSpace lb \<noteq> []" by (rule nonblank_if_mem) (rule plain_bytes)
  then have "body cb lb ([], ent, u) = Continue (linebuf @ butlast tok @ [LF], ent, u)"
    using l b by (simp add: body_Nil_eq)
  then show ?thesis by (simp add: body_append [of cb tok] lb_def)
qed

lemma body_comment:
  assumes "lb = linebuf @ tok" "TrimSpace lb \<noteq> []" "last lb \<noteq> BSL" "hd lb = CHR ''#''"
  shows "body cb tok (linebuf, ent, u) = Continue ([], ent, u)"
proof -
  have "body cb lb ([], ent, u) = Continue ([], ent, u)"
    using assms(2-) by (simp add: body_Nil_eq)
  then show ?thesis by (simp add: body_append [of cb tok] assms(1))
qed

lemma body_header:
  assumes "lb = linebuf @ tok" "lb \<noteq> []" "hd lb = CHR ''[''" "last lb = CHR '']''"
  shows "body cb tok (linebuf, ent, u) = Continue ([], ent\<lparr>Section := butlast (tl lb)\<rparr>, u)"
proof -
  have "CHR ''['' \<in> set lb" using assms(2,3) by (cases lb) auto
  then have "TrimSpace lb \<noteq> []" by (rule nonblank_if_mem) (rule plain_bytes)
  then have "body cb lb ([], ent, u) = Continue ([], ent\<lparr>Section := butlast (tl lb)\<rparr>, u)"
    using assms(3,4) by (simp add: body_Nil_eq)
  then show ?thesis by (simp add: body_append [of cb tok] assms(1))
qed

lemma body_entry:
  assumes "lb = linebuf @ tok" "last lb \<noteq> BSL" "hd lb \<noteq> CHR ''#''"
    "\<not> (hd lb = CHR ''['' \<and> last lb = CHR '']'')" "CHR ''='' \<in> set lb"
    "ent' = ent\<lparr>Key := TrimSpace (takeWhile (\<lambda>c. c \<noteq> CHR ''='') lb),
                  Value := TrimSpace (tl (dropWhile (\<lambda>c. c \<noteq> CHR ''='') lb))\<rparr>"
  shows "body cb tok (linebuf, ent, u) =
     (case cb ent' u of
        (Some e, u') \<Rightarrow> Return e (lb, ent', u')
      | (None, u') \<Rightarrow> Continue ([], ent', u'))"
proof -
  have nb: "(hd lb = CHR ''['' \<and> last lb = CHR '']'') = False" using assms(4) by simp
  have "TrimSpace lb \<noteq> []" using assms(5) by (rule nonblank_if_mem) (rule plain_bytes)
  then have "body cb lb ([], ent, u) =
     (case cb ent' u of
        (Some e, u') \<Rightarrow> Return e (lb, ent', u')
      | (None, u') \<Rightarrow> Continue ([], ent', u'))"
    using assms(2,3,5) unfolding assms(6) by (simp add: body_Nil_eq nb Let_def)
  then show ?thesis by (simp add: body_append [of cb tok] assms(1))
qed

lemma body_invalid:
  assumes "lb = linebuf @ tok" "TrimSpace lb \<noteq> []" "last lb \<noteq> BSL" "hd lb \<noteq> CHR ''#''"
    "\<not> (hd lb = CHR ''['' \<and> last lb = CHR '']'')" "CHR ''='' \<notin> set lb"
  shows "body cb tok (linebuf, ent, u) = Return (InvalidLine lb) (lb, ent, u)"
proof -
  have nb: "(hd lb = CHR ''['' \<and> last lb = CHR '']'') = False" using assms(5) by simp
  have "body cb lb ([], ent, u) = Return (InvalidLine lb) (lb, ent, u)"
    using assms(2,3,4,6) by (simp add: body_Nil_eq nb)
  then show ?thesis by (simp add: body_append [of cb tok] assms(1))
qed

text \<open>The scanner, line by line.\<close>

lemma scan_lines_Nil [simp]: "scan_lines [] = ([], False)"
  by (simp add: scan_lines.simps)

lemma scan_lines_line:
  assumes "LF \<notin> set l"
  shows "scan_lines (l @ LF # rest) =
     (if MaxScanTokenSize \<le> int (length l) then ([], True)
      else (dropCR l # fst (scan_lines rest), snd (scan_lines rest)))"
proof -
  have nl: "\<forall>x\<in>set l. x \<noteq> LF" using assms by auto
  have "takeWhile (\<lambda>c. c \<noteq> LF) (l @ LF # rest) = l"
    using nl by (simp add: takeWhile_append2)
  moreover have "dropWhile (\<lambda>c. c \<noteq> LF) (l @ LF # rest) = LF # rest"
    using nl by (simp add: dropWhile_append2)
  ultimately show ?thesis
    by (subst scan_lines.simps) (simp add: Let_def split: prod.splits)
qed

lemma scan_lines_last:
  assumes "LF \<notin> set l" "l \<noteq> []"
  shows "scan_lines l =
     (if MaxScanTokenSize \<le> int (length l) then ([], True) else ([dropCR l], False))"
proof -
  have nl: "\<forall>x\<in>set l. x \<noteq> LF" using assms by auto
  have tw: "takeWhile (\<lambda>c. c \<noteq> LF) l = l" "dropWhile (\<lambda>c. c \<noteq> LF) l = []"
    using nl by simp_all
  show ?thesis using assms(2)
    by (subst scan_lines.simps) (simp add: Let_def tw)
qed

text \<open>A byte stream is empty, one unterminated line, or a terminated line and the rest.\<close>

lemma lines_cases:
  obtains (empty) "data = []"
  | (last) "data \<noteq> []" "LF \<notin> set data"
  | (line) l rest where "data = l @ LF # rest" "LF \<notin> set l"
proof (cases "LF \<in> set data")
  case True
  then obtain l rest where "data = l @ LF # rest" "LF \<notin> set l"
    by (auto dest: split_list_first)
  then show ?thesis by (rule line)
next
  case False
  then show ?thesis using empty last by (cases "data = []") auto
qed

lemma lines_induct [case_names empty last line]:
  assumes "P []"
    and "\<And>l. l \<noteq> [] \<Longrightarrow> LF \<notin> set l \<Longrightarrow> P l"
    and "\<And>l rest. LF \<notin> set l \<Longrightarrow> P rest \<Longrightarrow> P (l @ LF # rest)"
  shows "P data"
proof (induction data rule: length_induct)
  case (1 data)
  show ?case
  proof (cases data rule: lines_cases)
    case empty
    then show ?thesis using assms(1) by simp
  next
    case last
    then show ?thesis using assms(2) by simp
  next
    case (line l rest)
    then have "length rest < length data" by simp
    with 1 have "P rest" by blast
    with line assms(3) show ?thesis by simp
  qed
qed

lemma scan_lines_final_LF:
  "d \<noteq> [] \<Longrightarrow> last d \<noteq> LF \<Longrightarrow> scan_lines (d @ [LF]) = scan_lines d"
proof (induction d rule: lines_induct)
  case empty
  then show ?case by simp
next
  case (last l)
  then show ?case using scan_lines_line [of l "[]"] by (simp add: scan_lines_last)
next
  case (line l rest)
  from line(3,4) have "rest \<noteq> []" "last rest \<noteq> LF" by (auto split: if_splits)
  with line(2) have "scan_lines (rest @ [LF]) = scan_lines rest" by simp
  with line(1) show ?case
    using scan_lines_line [of l "rest @ [LF]"] scan_lines_line [of l rest] by simp
qed


lemma loop_continuations:
  "\<forall>x\<in>set conts. x \<noteq> [] \<and> last x = BSL \<Longrightarrow>
   loop cb conts (linebuf, ent, u) =
     Continue (linebuf @ concat (map (\<lambda>x. butlast x @ [LF]) conts), ent, u)"
  by (induction conts arbitrary: linebuf) (simp_all add: body_continuation)

lemma body_complete:
  assumes "TrimSpace (linebuf @ tok) \<noteq> []" "last (linebuf @ tok) \<noteq> BSL"
  shows "(\<exists>ent' u'. body cb tok (linebuf, ent, u) = Continue ([], ent', u')) \<or>
         (\<exists>e st. body cb tok (linebuf, ent, u) = Return e st)"
  using assms
  by (auto simp: body_append [of cb tok] body_Nil_eq Let_def split: prod.splits option.splits)

lemma Read_lines_no_panic: "Read_lines toks serr cb u \<noteq> Panics"
  using loop_no_panic [of cb toks "([], \<lparr>Section = [], Key = [], Value = []\<rparr>, u)"]
  by (auto simp: Read_lines_def split: flow.splits)

lemma Read_lines_dangling:
  assumes "tok \<noteq> []" "last tok = BSL"
  shows "Read_lines (pre @ [tok]) serr cb u = Read_lines pre serr cb u"
  using assms
  by (auto simp: Read_lines_def loop_append body_continuation split: flow.splits)






text \<open>The error writer over a logged sink.\<close>

lemma Fprint_logged:
  assumes "ew_inv el" "ew_sim e el"
  shows "ew_inv (Fprint (logged_writer wr) p el) \<and> ew_sim (Fprint wr p e) (Fprint (logged_writer wr) p el)"
proof (cases "err el = None")
  case True
  with assms(1) have q: "\<forall>c\<in>set (snd (w el)). snd c = None"
    by (cases "snd (w el)" rule: rev_cases) (auto simp: ew_inv_def)
  obtain s log where wl: "w el = (s, log)" by (cases "w el")
  obtain r s' where wr: "wr p s = (r, s')" by (cases "wr p s")
  from True assms(2) wl have e: "err e = None" "w e = s" by (simp_all add: ew_sim_def)
  have "Fprint (logged_writer wr) p el = el\<lparr>err := r, w := (s', log @ [(p, r)])\<rparr>"
    using True wl wr by (simp add: Fprint_def errWriter_Write_def logged_writer_def)
  moreover have "Fprint wr p e = e\<lparr>err := r, w := s'\<rparr>"
    using e wr by (simp add: Fprint_def errWriter_Write_def)
  ultimately show ?thesis using q wl by (simp add: ew_inv_def ew_sim_def)
next
  case False
  with assms show ?thesis
    by (simp add: Fprint_def errWriter_Write_def ew_sim_def)
qed

lemma Fprint_rel:
  "ew_rel e el \<Longrightarrow> ew_rel (Fprint wr p e) (Fprint (logged_writer wr) p el)"
  using Fprint_logged [of el e wr p] by (simp add: ew_rel_def)

lemma emit_rel:
  assumes "ew_rel e el"
  shows "\<exists>sec' wrote' e' el'. emit (logged_writer wr) ent (sec, wrote, el) = (sec', wrote', el') \<and>
      emit wr ent (sec, wrote, e) = (sec', wrote', e') \<and> ew_rel e' el'"
  using assms
  by (auto simp: emit_def Let_def Fprint_rel)

lemma fold_emit_rel:
  "ew_rel e el \<Longrightarrow>
   \<exists>sec' wrote' e' el'. fold (emit (logged_writer wr)) ents (sec, wrote, el) = (sec', wrote', el') \<and>
      fold (emit wr) ents (sec, wrote, e) = (sec', wrote', e') \<and> ew_rel e' el'"
proof (induction ents arbitrary: sec wrote e el)
  case Nil
  then show ?case by simp
next
  case (Cons ent ents)
  from emit_rel [OF Cons.prems, of wr ent sec wrote] obtain sec1 wrote1 e1 el1 where
    "emit (logged_writer wr) ent (sec, wrote, el) = (sec1, wrote1, el1)"
    "emit wr ent (sec, wrote, e) = (sec1, wrote1, e1)" "ew_rel e1 el1"
    by blast
  with Cons.IH [of e1 el1 sec1 wrote1] show ?case by simp
qed

text \<open>Trimming.\<close>

lemma leading_space_0_iff: "leading_space s = 0 \<longleftrightarrow> (\<forall>p\<in>set space_runes. \<not> prefix p s)"
  by (cases s rule: leading_space_cases) auto

lemma trailing_space_0_iff: "trailing_space s = 0 \<longleftrightarrow> (\<forall>p\<in>set space_runes. \<not> suffix p s)"
  by (cases s rule: trailing_space_cases) auto

lemma TrimLeft_id: "leading_space s = 0 \<Longrightarrow> TrimLeft s = s"
  by (simp add: TrimLeft.simps)

lemma TrimRight_id: "trailing_space s = 0 \<Longrightarrow> TrimRight s = s"
  by (simp add: TrimRight.simps)

lemma TrimSpace_id: "trimmed s \<Longrightarrow> TrimSpace s = s"
  by (simp add: trimmed_def TrimSpace_def TrimLeft_id TrimRight_id)

lemma leading_space_TrimLeft: "leading_space (TrimLeft s) = 0"
  by (induction s rule: TrimLeft.induct) (subst TrimLeft.simps, simp)

lemma trailing_space_TrimRight: "trailing_space (TrimRight s) = 0"
  by (induction s rule: TrimRight.induct) (subst TrimRight.simps, simp)

lemma TrimRight_prefix: "prefix (TrimRight s) s"
proof (induction s rule: TrimRight.induct)
  case (1 s)
  show ?case
  proof (cases "trailing_space s = 0")
    case True
    then show ?thesis by (simp add: TrimRight_id)
  next
    case False
    with 1 have "prefix (TrimRight (take (length s - trailing_space s) s)) (take (length s - trailing_space s) s)"
      by simp
    moreover have "prefix (take (length s - trailing_space s) s) s" by (rule take_is_prefix)
    ultimately have "prefix (TrimRight (take (length s - trailing_space s) s)) s"
      by (rule prefix_order.trans)
    with False show ?thesis by (subst TrimRight.simps) simp
  qed
qed

lemma TrimLeft_suffix: "suffix (TrimLeft s) s"
proof (induction s rule: TrimLeft.induct)
  case (1 s)
  show ?case
  proof (cases "leading_space s = 0")
    case True
    then show ?thesis by (simp add: TrimLeft_id)
  next
    case False
    with 1 have "suffix (TrimLeft (drop (leading_space s) s)) (drop (leading_space s) s)"
      by simp
    moreover have "suffix (drop (leading_space s) s) s" by (rule suffix_drop)
    ultimately have "suffix (TrimLeft (drop (leading_space s) s)) s"
      by (rule suffix_order.trans)
    with False show ?thesis by (subst TrimLeft.simps) simp
  qed
qed

lemma trimmed_TrimSpace: "trimmed (TrimSpace s)"
proof -
  have "leading_space (TrimRight (TrimLeft s)) = 0"
    unfolding leading_space_0_iff
  proof
    fix p assume p: "p \<in> set space_runes"
    show "\<not> prefix p (TrimRight (TrimLeft s))"
    proof
      assume "prefix p (TrimRight (TrimLeft s))"
      then have "prefix p (TrimLeft s)" using TrimRight_prefix prefix_order.trans by blast
      with p leading_space_TrimLeft [of s] show False by (simp add: leading_space_0_iff)
    qed
  qed
  then show ?thesis by (simp add: trimmed_def TrimSpace_def trailing_space_TrimRight)
qed

lemma set_TrimSpace: "set (TrimSpace s) \<subseteq> set s"
proof -
  have "set (TrimRight (TrimLeft s)) \<subseteq> set (TrimLeft s)"
    using TrimRight_prefix [of "TrimLeft s"] by (rule set_mono_prefix)
  moreover have "set (TrimLeft s) \<subseteq> set s"
    using TrimLeft_suffix [of s] by (rule set_mono_suffix)
  ultimately show ?thesis by (auto simp: TrimSpace_def)
qed

lemma space_runes_SP:
  "[CHR 0x20] \<in> set space_runes"
  "\<forall>p\<in>set space_runes. hd p = CHR 0x20 \<longrightarrow> p = [CHR 0x20]"
  "\<forall>p\<in>set space_runes. last p = CHR 0x20 \<longrightarrow> p = [CHR 0x20]"
  "[CR] \<in> set space_runes"
  by (simp_all add: space_runes_def)

lemma TrimLeft_SP: "TrimLeft (CHR 0x20 # s) = TrimLeft s"
proof (cases "CHR 0x20 # s" rule: leading_space_cases)
  case none
  with space_runes_SP(1) show ?thesis by auto
next
  case (some p)
  from some(2,4) have "hd p = CHR 0x20" by (cases p) simp_all
  with some(1) space_runes_SP(2) have "p = [CHR 0x20]" by blast
  with some show ?thesis by (subst TrimLeft.simps) simp
qed

lemma TrimRight_SP: "TrimRight (s @ [CHR 0x20]) = TrimRight s"
proof (cases "s @ [CHR 0x20]" rule: trailing_space_cases)
  case none
  with space_runes_SP(1) show ?thesis by (auto simp: suffix_def)
next
  case (some p)
  from some(2) obtain zs where "s @ [CHR 0x20] = zs @ p" by (auto simp: suffix_def)
  with some(4) have "last p = CHR 0x20" by (metis last_appendR last_snoc)
  with some(1) space_runes_SP(3) have "p = [CHR 0x20]" by blast
  with some show ?thesis by (subst TrimRight.simps) simp
qed

lemma leading_space_snoc:
  assumes "leading_space k = 0" "k \<noteq> []"
  shows "leading_space (k @ [CHR 0x20]) = 0"
  unfolding leading_space_0_iff
proof
  fix p assume p: "p \<in> set space_runes"
  show "\<not> prefix p (k @ [CHR 0x20])"
  proof
    assume "prefix p (k @ [CHR 0x20])"
    then consider "prefix p k" | "p = k @ [CHR 0x20]" by (auto simp: prefix_snoc)
    then show False
    proof cases
      case 1
      with p assms(1) show False by (simp add: leading_space_0_iff)
    next
      case 2
      then have "last p = CHR 0x20" by simp
      with p space_runes_SP(3) have "p = [CHR 0x20]" by blast
      with 2 assms(2) show False by simp
    qed
  qed
qed

text \<open>Trimming gives a trimmed key back from the text the writer puts before \<open>=\<close>, and a value from the text after it.\<close>

lemma TrimSpace_key: "trimmed k \<Longrightarrow> k \<noteq> [] \<Longrightarrow> TrimSpace (k @ '' '') = k"
  by (simp add: TrimSpace_def TrimLeft_id leading_space_snoc TrimRight_SP TrimRight_id trimmed_def)

lemma TrimSpace_value: "trimmed v \<Longrightarrow> TrimSpace ('' '' @ v) = v"
  by (simp add: TrimSpace_def TrimLeft_SP TrimLeft_id TrimRight_id trimmed_def)

lemma trimmed_last_CR: "trimmed v \<Longrightarrow> v \<noteq> [] \<Longrightarrow> last v \<noteq> CR"
proof
  assume "trimmed v" "v \<noteq> []" "last v = CR"
  then have "suffix [CR] v" by (cases v rule: rev_cases) (auto simp: suffix_def)
  with space_runes_SP(4) \<open>trimmed v\<close> show False
    by (auto simp: trimmed_def trailing_space_0_iff)
qed

text \<open>The buffer after \<^verbatim>\<open>Write\<close>, and reading it back.\<close>

lemma escape_append: "escape (a @ b) = escape a @ escape b"
  by (induction a) auto

lemma Fprint_Buffer:
  "Fprint Buffer_Write p \<lparr>err = None, w = buf\<rparr> = \<lparr>err = None, w = buf @ p\<rparr>"
  by (simp add: Fprint_def errWriter_Write_def Buffer_Write_def)

lemma emit_Buffer:
  "emit Buffer_Write e (sec, wrote, \<lparr>err = None, w = buf\<rparr>) =
     (Section e, True, \<lparr>err = None, w = buf @ render sec wrote [e]\<rparr>)"
  by (simp add: emit_def Let_def Fprint_Buffer entry_line_def escape_append)

lemma render_Cons: "render sec wrote (e # es) = render sec wrote [e] @ render (Section e) True es"
  by simp

lemma fold_emit_Buffer:
  "\<exists>sec' wrote'. fold (emit Buffer_Write) es (sec, wrote, \<lparr>err = None, w = buf\<rparr>) =
     (sec', wrote', \<lparr>err = None, w = buf @ render sec wrote es\<rparr>)"
proof (induction es arbitrary: sec wrote buf)
  case Nil
  then show ?case by simp
next
  case (Cons e es)
  from Cons [of "Section e" True "buf @ render sec wrote [e]"]
  show ?case by (simp only: fold_simps emit_Buffer render_Cons [of sec wrote e es] append_assoc)
qed

lemma Write_Buffer:
  "Write (Buffer_Write :: (string, 'x) writer) [] es = (None, render [] False es)"
proof -
  obtain sec' wrote' where
    "fold (emit (Buffer_Write :: (string, 'x) writer)) es ([], False, \<lparr>err = None, w = []\<rparr>) =
       (sec', wrote', \<lparr>err = None, w = [] @ render [] False es\<rparr>)"
    using fold_emit_Buffer [of es "[]" False "[]"] by blast
  then show ?thesis by (simp add: Write_def)
qed


lemma dropCR_id: "s = [] \<or> last s \<noteq> CR \<Longrightarrow> dropCR s = s"
  by (auto simp: dropCR_def)

lemma scan_lines_line_ok:
  assumes "LF \<notin> set l" "\<not> snd (scan_lines (l @ LF # rest))"
  shows "fst (scan_lines (l @ LF # rest)) = dropCR l # fst (scan_lines rest)"
    and "\<not> snd (scan_lines rest)"
  using assms(2) scan_lines_line [OF assms(1), of rest]
  by (auto split: if_splits)

lemma loop_Cons_append: "loop cb (t # ts) (lb, ent, u) = loop cb ((lb @ t) # ts) ([], ent, u)"
  by (simp add: body_append [of cb t])

text \<open>
  Reading back what \<open>escape\<close> wrote: the raw lines of an escaped text \<open>x\<close> are
  joined by the loop into the line \<open>x\<close>.
\<close>

lemma loop_escaped:
  assumes "\<not> snd (scan_lines (p @ escape x @ LF # rest))" "LF \<notin> set p"
    "p @ x = [] \<or> last (p @ x) \<noteq> CR"
  shows "loop cb (fst (scan_lines (p @ escape x @ LF # rest))) (lb, ent, u) =
           loop cb ((p @ x) # fst (scan_lines rest)) (lb, ent, u) \<and>
         \<not> snd (scan_lines rest)"
  using assms
proof (induction x arbitrary: p lb)
  case Nil
  then show ?case
    using scan_lines_line_ok [of p rest] by (simp add: dropCR_id)
next
  case (Cons c x)
  show ?case
  proof (cases "c = LF")
    case False
    have "\<not> snd (scan_lines ((p @ [c]) @ escape x @ LF # rest))" "LF \<notin> set (p @ [c])"
      "(p @ [c]) @ x = [] \<or> last ((p @ [c]) @ x) \<noteq> CR"
      using Cons.prems False by simp_all
    from Cons.IH [OF this, of lb] False show ?thesis by simp
  next
    case True
    have eqt: "p @ escape (c # x) @ LF # rest = (p @ [BSL]) @ LF # (escape x @ LF # rest)"
      using True by simp
    have nl: "LF \<notin> set (p @ [BSL])" using Cons.prems(2) by simp
    have nt: "\<not> snd (scan_lines ((p @ [BSL]) @ LF # (escape x @ LF # rest)))"
      using Cons.prems(1) eqt by simp
    note sc = scan_lines_line_ok [OF nl nt]
    have cr: "[] @ x = [] \<or> last ([] @ x) \<noteq> CR"
      using Cons.prems(3) True by (auto split: if_splits)
    have "\<not> snd (scan_lines ([] @ escape x @ LF # rest))" using sc(2) by simp
    from Cons.IH [OF this _ cr, of "lb @ p @ [LF]"]
    have ih: "loop cb (fst (scan_lines (escape x @ LF # rest))) (lb @ p @ [LF], ent, u) =
        loop cb (x # fst (scan_lines rest)) (lb @ p @ [LF], ent, u)"
      and r: "\<not> snd (scan_lines rest)"
      by simp_all
    have "loop cb (fst (scan_lines (p @ escape (c # x) @ LF # rest))) (lb, ent, u) =
        loop cb ((p @ [BSL]) # fst (scan_lines (escape x @ LF # rest))) (lb, ent, u)"
      using sc(1) eqt by (simp add: dropCR_id)
    also have "\<dots> = loop cb (fst (scan_lines (escape x @ LF # rest))) (lb @ p @ [LF], ent, u)"
      by (simp add: body_continuation)
    also have "\<dots> = loop cb (x # fst (scan_lines rest)) (lb @ p @ [LF], ent, u)"
      by (rule ih)
    also have "\<dots> = loop cb ((p @ c # x) # fst (scan_lines rest)) (lb, ent, u)"
    proof -
      have "body cb x (lb @ p @ [LF], ent, u) = body cb (p @ c # x) (lb, ent, u)"
        using True by (simp add: body_append [of cb x] body_append [of cb "p @ LF # x"])
      then show ?thesis by simp
    qed
    finally show ?thesis using r by simp
  qed
qed

lemma read_blank:
  assumes "\<not> snd (scan_lines (LF # rest))"
  shows "loop cb (fst (scan_lines (LF # rest))) ([], ent, u) =
           loop cb (fst (scan_lines rest)) ([], ent, u) \<and> \<not> snd (scan_lines rest)"
  using scan_lines_line_ok [of "[]" rest] assms
  by (simp add: dropCR_def body_blank)

lemma read_header:
  assumes "\<not> snd (scan_lines (escape (''['' @ s @ '']'') @ LF # rest))"
  shows "loop cb (fst (scan_lines (escape (''['' @ s @ '']'') @ LF # rest))) ([], ent, u) =
           loop cb (fst (scan_lines rest)) ([], ent\<lparr>Section := s\<rparr>, u) \<and>
         \<not> snd (scan_lines rest)"
proof -
  let ?h = "''['' @ s @ '']''"
  have "body cb ?h ([], ent, u) = Continue ([], ent\<lparr>Section := butlast (tl ?h)\<rparr>, u)"
    by (rule body_header) simp_all
  moreover have "butlast (tl ?h) = s" by (simp add: butlast_append)
  ultimately have "loop cb (?h # fst (scan_lines rest)) ([], ent, u) =
      loop cb (fst (scan_lines rest)) ([], ent\<lparr>Section := s\<rparr>, u)"
    by simp
  with loop_escaped [of "[]" ?h rest cb "[]" ent u] assms show ?thesis by simp
qed


lemma takeWhile_key:
  "CHR ''='' \<notin> set k \<Longrightarrow> takeWhile (\<lambda>c. c \<noteq> CHR ''='') (k @ CHR ''='' # v) = k"
  by (induction k) auto

lemma dropWhile_key:
  "CHR ''='' \<notin> set k \<Longrightarrow> dropWhile (\<lambda>c. c \<noteq> CHR ''='') (k @ CHR ''='' # v) = CHR ''='' # v"
  by (induction k) auto

text \<open>The loop body on the line the writer makes of an entry.\<close>

lemma body_entry_line:
  assumes "parsed e" "reparsable e" "Section ent = Section e"
  shows "body (collect :: (Entry list, 'x) callback) (entry_line e) ([], ent, got) = Continue ([], e, got @ [e])"
proof -
  define k where "k = (if Key e \<noteq> [] then Key e @ '' '' else [])"
  define v where "v = (if Value e \<noteq> [] then '' '' @ Value e else [])"
  define lb where "lb = entry_line e"
  have lb: "lb = k @ CHR ''='' # v" by (simp add: lb_def entry_line_def k_def v_def)
  have nk: "CHR ''='' \<notin> set k" using assms(1) by (simp add: k_def parsed_def)
  have tk: "TrimSpace k = Key e"
    using assms(1) by (simp add: k_def parsed_def TrimSpace_key)
  have tv: "TrimSpace v = Value e"
    using assms(1) TrimSpace_value [of "Value e"] by (simp add: v_def parsed_def)
  have l: "last lb \<noteq> BSL"
    using assms(2) by (auto simp: lb v_def reparsable_def)
  have h: "hd lb \<noteq> CHR ''#''"
    using assms(2) by (auto simp: lb k_def reparsable_def hd_append)
  have b: "\<not> (hd lb = CHR ''['' \<and> last lb = CHR '']'')"
    using assms(2) by (auto simp: lb k_def v_def reparsable_def hd_append split: if_splits)
  have m: "CHR ''='' \<in> set lb" by (simp add: lb)
  have en: "e = ent\<lparr>Key := TrimSpace (takeWhile (\<lambda>c. c \<noteq> CHR ''='') lb),
                  Value := TrimSpace (tl (dropWhile (\<lambda>c. c \<noteq> CHR ''='') lb))\<rparr>"
    using assms(3) by (cases e; cases ent) (simp add: lb takeWhile_key dropWhile_key nk tk tv)
  have "body (collect :: (Entry list, 'x) callback) lb ([], ent, got) =
     (case (collect :: (Entry list, 'x) callback) e got of
        (Some x, u') \<Rightarrow> Return x (lb, e, u')
      | (None, u') \<Rightarrow> Continue ([], e, u'))"
    by (rule body_entry [OF _ l h b m en]) simp
  then show ?thesis by (simp add: collect_def lb_def)
qed

lemma entry_line_last: "parsed e \<Longrightarrow> entry_line e \<noteq> [] \<and> last (entry_line e) \<noteq> CR"
  using trimmed_last_CR [of "Value e"] by (simp add: entry_line_def parsed_def)

lemma read_entry_line:
  assumes "parsed e" "reparsable e" "Section ent = Section e"
    "\<not> snd (scan_lines (escape (entry_line e) @ LF # rest))"
  shows "loop (collect :: (Entry list, 'x) callback) (fst (scan_lines (escape (entry_line e) @ LF # rest))) ([], ent, got) =
           loop (collect :: (Entry list, 'x) callback) (fst (scan_lines rest)) ([], e, got @ [e]) \<and>
         \<not> snd (scan_lines rest)"
proof -
  have "[] @ entry_line e = [] \<or> last ([] @ entry_line e) \<noteq> CR"
    using entry_line_last [OF assms(1)] by simp
  with loop_escaped [of "[]" "entry_line e" rest "collect :: (Entry list, 'x) callback" "[]" ent got] assms(4)
  have A: "loop (collect :: (Entry list, 'x) callback) (fst (scan_lines (escape (entry_line e) @ LF # rest))) ([], ent, got) =
      loop (collect :: (Entry list, 'x) callback) (entry_line e # fst (scan_lines rest)) ([], ent, got)"
    and B: "\<not> snd (scan_lines rest)"
    by (simp_all del: loop.simps)
  have "loop (collect :: (Entry list, 'x) callback) (entry_line e # fst (scan_lines rest)) ([], ent, got) =
      loop (collect :: (Entry list, 'x) callback) (fst (scan_lines rest)) ([], e, got @ [e])"
    by (simp add: body_entry_line [OF assms(1-3)])
  with A B show ?thesis by simp
qed

text \<open>Reading back what \<^verbatim>\<open>Write\<close> wrote into a buffer.\<close>

lemma read_render:
  assumes "\<forall>e\<in>set es. parsed e \<and> reparsable e" "Section ent = sec"
    "\<not> snd (scan_lines (render sec wrote es))"
  shows "\<exists>ent'. loop (collect :: (Entry list, 'x) callback) (fst (scan_lines (render sec wrote es))) ([], ent, got) =
           Continue ([], ent', got @ es)"
  using assms
proof (induction es arbitrary: sec wrote ent got)
  case Nil
  then show ?case by simp
next
  case (Cons e es)
  let ?rest = "render (Section e) True es"
  let ?line = "escape (entry_line e) @ LF # ?rest"
  from Cons.prems(1) have pe: "parsed e" "reparsable e" and pes: "\<forall>e\<in>set es. parsed e \<and> reparsable e"
    by simp_all
  have step: "\<not> snd (scan_lines ?line) \<Longrightarrow> Section ent2 = Section e \<Longrightarrow>
      \<exists>ent'. loop (collect :: (Entry list, 'x) callback) (fst (scan_lines ?line)) ([], ent2, got) = Continue ([], ent', got @ e # es)"
    for ent2
  proof -
    assume a: "\<not> snd (scan_lines ?line)" "Section ent2 = Section e"
    from read_entry_line [OF pe a(2) a(1), of got]
    have 1: "loop (collect :: (Entry list, 'x) callback) (fst (scan_lines ?line)) ([], ent2, got) =
        loop (collect :: (Entry list, 'x) callback) (fst (scan_lines ?rest)) ([], e, got @ [e])"
      and 2: "\<not> snd (scan_lines ?rest)" by blast+
    from Cons.IH [OF pes _ 2, of e "got @ [e]"] obtain ent' where
      "loop (collect :: (Entry list, 'x) callback) (fst (scan_lines ?rest)) ([], e, got @ [e]) = Continue ([], ent', (got @ [e]) @ es)"
      by auto
    with 1 have "loop (collect :: (Entry list, 'x) callback) (fst (scan_lines ?line)) ([], ent2, got) = Continue ([], ent', got @ e # es)"
      by simp
    then show ?thesis ..
  qed
  show ?case
  proof (cases "Section e = sec")
    case True
    with Cons.prems(2,3) step [of ent] show ?thesis by simp
  next
    case False
    let ?hdr = "escape (''['' @ Section e @ '']'') @ LF # ?line"
    have r: "render sec wrote (e # es) = (if wrote then LF # ?hdr else ?hdr)"
      using False by simp
    have nh: "\<not> snd (scan_lines ?hdr)"
      and bl: "loop (collect :: (Entry list, 'x) callback) (fst (scan_lines (render sec wrote (e # es)))) ([], ent, got) =
        loop (collect :: (Entry list, 'x) callback) (fst (scan_lines ?hdr)) ([], ent, got)"
      using Cons.prems(3) read_blank [of ?hdr "collect :: (Entry list, 'x) callback" ent got] unfolding r
      by (auto split: if_splits)
    from read_header [OF nh, of "collect :: (Entry list, 'x) callback" ent got]
    have 1: "loop (collect :: (Entry list, 'x) callback) (fst (scan_lines ?hdr)) ([], ent, got) =
        loop (collect :: (Entry list, 'x) callback) (fst (scan_lines ?line)) ([], ent\<lparr>Section := Section e\<rparr>, got)"
      and 2: "\<not> snd (scan_lines ?line)" by blast+
    from step [OF 2, of "ent\<lparr>Section := Section e\<rparr>"] bl 1 show ?thesis by simp
  qed
qed

text \<open>What the parser emits: trimmed keys without \<open>=\<close>, and trimmed values.\<close>

lemma body_collect_parsed:
  assumes "\<forall>e\<in>set got. parsed e"
  shows "case body (collect :: (Entry list, 'x) callback) tok (lb, ent, got) of
           Continue (lb', ent', got') \<Rightarrow> \<forall>e\<in>set got'. parsed e
         | Return x (lb', ent', got') \<Rightarrow> \<forall>e\<in>set got'. parsed e
         | Panic \<Rightarrow> True"
proof -
  let ?l = "lb @ tok"
  have "parsed (ent\<lparr>Key := TrimSpace (takeWhile (\<lambda>c. c \<noteq> CHR ''='') ?l),
                    Value := TrimSpace (tl (dropWhile (\<lambda>c. c \<noteq> CHR ''='') ?l))\<rparr>)"
    using set_TrimSpace [of "takeWhile (\<lambda>c. c \<noteq> CHR ''='') ?l"]
    by (auto simp: parsed_def trimmed_TrimSpace dest: set_takeWhileD)
  with assms show ?thesis
    by (simp add: body_append [of _ tok] body_Nil_eq Let_def collect_def)
qed

lemma loop_collect_parsed:
  "\<forall>e\<in>set got. parsed e \<Longrightarrow>
   case loop (collect :: (Entry list, 'x) callback) toks (lb, ent, got) of
     Continue (lb', ent', got') \<Rightarrow> \<forall>e\<in>set got'. parsed e
   | Return x (lb', ent', got') \<Rightarrow> \<forall>e\<in>set got'. parsed e
   | Panic \<Rightarrow> True"
proof (induction toks arbitrary: lb ent got)
  case Nil
  then show ?case by simp
next
  case (Cons tok toks)
  have b: "case body (collect :: (Entry list, 'x) callback) tok (lb, ent, got) of
           Continue (lb', ent', got') \<Rightarrow> \<forall>e\<in>set got'. parsed e
         | Return x (lb', ent', got') \<Rightarrow> \<forall>e\<in>set got'. parsed e
         | Panic \<Rightarrow> True"
    using Cons.prems by (rule body_collect_parsed)
  show ?case
  proof (cases "body (collect :: (Entry list, 'x) callback) tok (lb, ent, got)")
    case (Continue st)
    obtain lb' ent' got' where st: "st = (lb', ent', got')" by (cases st)
    with b Continue have "\<forall>e\<in>set got'. parsed e" by simp
    from Cons.IH [OF this, of lb' ent'] Continue st show ?thesis by simp
  next
    case (Return x st)
    obtain lb' ent' got' where st: "st = (lb', ent', got')" by (cases st)
    with b Return show ?thesis by simp
  next
    case Panic
    then show ?thesis by simp
  qed
qed

lemma Read_collect_parsed:
  "Read r (collect :: (Entry list, 'x) callback) [] = Returns res ents \<Longrightarrow> \<forall>e\<in>set ents. parsed e"
proof -
  assume R: "Read r (collect :: (Entry list, 'x) callback) [] = Returns res ents"
  let ?l = "loop (collect :: (Entry list, 'x) callback) (Scanner_tokens r) ([], \<lparr>Section = [], Key = [], Value = []\<rparr>, [])"
  have P: "case ?l of
     Continue (lb', ent', got') \<Rightarrow> \<forall>e\<in>set got'. parsed e
   | Return x (lb', ent', got') \<Rightarrow> \<forall>e\<in>set got'. parsed e
   | Panic \<Rightarrow> True"
    by (rule loop_collect_parsed) simp
  show ?thesis
  proof (cases ?l)
    case (Continue st)
    then obtain lb' ent' got' where "?l = Continue (lb', ent', got')" by (cases st) blast
    with P R show ?thesis by (simp add: Read_def Read_lines_def)
  next
    case (Return x st)
    then obtain lb' ent' got' where "?l = Return x (lb', ent', got')" by (cases st) blast
    with P R show ?thesis by (simp add: Read_def Read_lines_def)
  next
    case Panic
    with R show ?thesis by (simp add: Read_def Read_lines_def)
  qed
qed

text \<open>An entry that the parser emits and whose line is too long for the scanner.\<close>

lemma escape_id: "LF \<notin> set s \<Longrightarrow> escape s = s"
  by (induction s) auto

lemma space_runes_LF:
  "[LF] \<in> set space_runes"
  "\<forall>p\<in>set space_runes. last p = LF \<longrightarrow> p = [LF]"
  by (simp_all add: space_runes_def)

lemma TrimRight_LF: "TrimRight (s @ [LF]) = TrimRight s"
proof (cases "s @ [LF]" rule: trailing_space_cases)
  case none
  with space_runes_LF(1) show ?thesis by (auto simp: suffix_def)
next
  case (some p)
  from some(2) obtain zs where "s @ [LF] = zs @ p" by (auto simp: suffix_def)
  with some(4) have "last p = LF" by (metis last_appendR last_snoc)
  with some(1) space_runes_LF(2) have "p = [LF]" by blast
  with some show ?thesis by (subst TrimRight.simps) simp
qed

lemma leading_space_plain:
  assumes "s \<noteq> []" "\<forall>p\<in>set space_runes. hd p \<noteq> hd s"
  shows "leading_space s = 0"
  unfolding leading_space_0_iff
proof
  fix p assume p: "p \<in> set space_runes"
  then have "p \<noteq> []" by (auto simp: space_runes_def)
  show "\<not> prefix p s"
  proof
    assume "prefix p s"
    with \<open>p \<noteq> []\<close> assms(1) have "hd p = hd s" by (cases p; cases s) auto
    with p assms(2) show False by blast
  qed
qed

lemma trailing_space_plain:
  assumes "s \<noteq> []" "\<forall>p\<in>set space_runes. last p \<noteq> last s"
  shows "trailing_space s = 0"
  unfolding trailing_space_0_iff
proof
  fix p assume p: "p \<in> set space_runes"
  then have "p \<noteq> []" by (auto simp: space_runes_def)
  show "\<not> suffix p s"
  proof
    assume "suffix p s"
    then obtain zs where "s = zs @ p" by (auto simp: suffix_def)
    with \<open>p \<noteq> []\<close> have "last p = last s" by simp
    with p assms(2) show False by blast
  qed
qed

text \<open>A run of one letter, as key or value.\<close>

lemma trimmed_replicate:
  assumes "0 < n" "\<forall>p\<in>set space_runes. hd p \<noteq> c \<and> last p \<noteq> c"
  shows "trimmed (replicate n c)"
proof -
  have ne: "replicate n c \<noteq> []" using assms(1) by simp
  have "hd (replicate n c) = c" "last (replicate n c) = c"
    using assms(1) by (simp_all add: hd_replicate last_replicate)
  with assms(2) leading_space_plain [OF ne] trailing_space_plain [OF ne] show ?thesis
    by (simp add: trimmed_def)
qed

lemma letters:
  "\<forall>p\<in>set space_runes. hd p \<noteq> CHR ''k'' \<and> last p \<noteq> CHR ''k''"
  "\<forall>p\<in>set space_runes. hd p \<noteq> CHR ''v'' \<and> last p \<noteq> CHR ''v''"
  by (simp_all add: space_runes_def)

lemma long_entry_parsed:
  fixes n :: nat
  assumes "0 < n" "int n + 1 < MaxScanTokenSize"
  defines "K \<equiv> replicate n (CHR ''k'')" and "V \<equiv> replicate n (CHR ''v'')"
  shows "Read \<lparr>content = K @ [BSL, LF] @ ''='' @ V, failure = (None :: unit error option)\<rparr> (collect :: (Entry list, unit) callback) [] =
     Returns None [\<lparr>Section = [], Key = K, Value = V\<rparr>]"
proof -
  let ?init = "\<lparr>Section = [], Key = [], Value = []\<rparr>"
  let ?e = "\<lparr>Section = [], Key = K, Value = V\<rparr>"
  have tK: "trimmed K" and tV: "trimmed V"
    using assms(1) by (simp_all add: K_def V_def trimmed_replicate letters)
  have nK: "K \<noteq> []" and nV: "V \<noteq> []" using assms(1) by (simp_all add: K_def V_def)
  have lV: "last V = CHR ''v''" and hK: "hd K = CHR ''k''"
    using assms(1) by (simp_all add: K_def V_def last_replicate hd_replicate)
  have sK: "set K = {CHR ''k''}" and sV: "set V = {CHR ''v''}"
    using assms(1) by (auto simp: K_def V_def)
  have len: "length K = n" "length V = n" by (simp_all add: K_def V_def)
  have s2: "scan_lines (''='' @ V) = ([''='' @ V], False)"
    using scan_lines_last [of "''='' @ V"] assms(2) lV nV sV
    by (simp add: len dropCR_def)
  have "K @ [BSL, LF] @ ''='' @ V = (K @ [BSL]) @ LF # (''='' @ V)" by simp
  moreover have "LF \<notin> set (K @ [BSL])" by (simp add: sK)
  ultimately have s1: "scan_lines (K @ [BSL, LF] @ ''='' @ V) = ([K @ [BSL], ''='' @ V], False)"
    using scan_lines_line [of "K @ [BSL]" "''='' @ V"] assms(2) s2
    by (simp add: len dropCR_def)
  have b1: "body (collect :: (Entry list, unit) callback) (K @ [BSL]) ([], ?init, []) = Continue (K @ [LF], ?init, [])"
    using body_continuation [of "K @ [BSL]" "collect :: (Entry list, unit) callback" "[]" ?init "[]"] by (simp add: butlast_append)
  let ?lb = "(K @ [LF]) @ CHR ''='' # V"
  have tk: "takeWhile (\<lambda>c. c \<noteq> CHR ''='') ?lb = K @ [LF]"
    by (rule takeWhile_key) (simp add: sK)
  have dk: "tl (dropWhile (\<lambda>c. c \<noteq> CHR ''='') ?lb) = V"
    using dropWhile_key [of "K @ [LF]" V] by (simp add: sK)
  have "leading_space (K @ [LF]) = 0"
    by (rule leading_space_plain) (use nK hK letters(1) in \<open>simp_all add: hd_append\<close>)
  then have trK: "TrimSpace (K @ [LF]) = K"
    using tK by (simp add: TrimSpace_def TrimLeft_id TrimRight_LF TrimRight_id trimmed_def)
  have en: "?e = ?init\<lparr>Key := TrimSpace (takeWhile (\<lambda>c. c \<noteq> CHR ''='') ?lb),
      Value := TrimSpace (tl (dropWhile (\<lambda>c. c \<noteq> CHR ''='') ?lb))\<rparr>"
    by (simp only: tk dk trK TrimSpace_id [OF tV]) simp
  have "body (collect :: (Entry list, unit) callback) (''='' @ V) (K @ [LF], ?init, []) =
     (case (collect :: (Entry list, unit) callback) ?e [] of
        (Some x, u') \<Rightarrow> Return x (?lb, ?e, u')
      | (None, u') \<Rightarrow> Continue ([], ?e, u'))"
    by (rule body_entry [OF _ _ _ _ _ en]) (use nK hK lV nV in \<open>simp_all add: hd_append\<close>)
  then have b2: "body (collect :: (Entry list, unit) callback) (''='' @ V) (K @ [LF], ?init, []) = Continue ([], ?e, [?e])"
    by (simp add: collect_def)
  have "loop (collect :: (Entry list, unit) callback) [K @ [BSL], ''='' @ V] ([], ?init, []) =
      Continue ([], ?e, [?e])"
    by (simp only: loop.simps b1 b2 flow.case)
  then show ?thesis
    by (simp add: Read_def Read_lines_def Scanner_tokens_def Scanner_Err_def s1 del: append.simps loop.simps)
qed

lemma long_entry_round_trip:
  fixes n :: nat
  assumes "MaxScanTokenSize \<le> 2 * int n"
  defines "K \<equiv> replicate n (CHR ''k'')" and "V \<equiv> replicate n (CHR ''v'')"
  shows "RoundTrip [\<lparr>Section = [], Key = K, Value = V\<rparr>] = (None, Returns (Some ErrTooLong) [])"
proof -
  let ?e = "\<lparr>Section = [], Key = K, Value = V\<rparr>"
  have n: "0 < n" using assms(1) by (auto simp: MaxScanTokenSize_def)
  then have nK: "K \<noteq> []" and nV: "V \<noteq> []" by (simp_all add: K_def V_def)
  have sK: "set K = {CHR ''k''}" and sV: "set V = {CHR ''v''}"
    using n by (auto simp: K_def V_def)
  let ?l = "K @ '' = '' @ V"
  have el: "entry_line ?e = ?l" using nK nV by (simp add: entry_line_def)
  have nl: "LF \<notin> set ?l" by (simp add: sK sV)
  have "escape (entry_line ?e) = ?l" by (simp only: el escape_id [OF nl])
  then have r: "render [] False [?e] = ?l @ LF # []"
    by (simp del: append.simps)
  have "MaxScanTokenSize \<le> int (length ?l)"
    using assms(1) by (simp add: K_def V_def)
  with scan_lines_line [OF nl, of "[]"] have "scan_lines (?l @ LF # []) = ([], True)"
    by (simp only: if_True)
  then have "scan_lines (render [] False [?e]) = ([], True)"
    by (simp only: r)
  then show ?thesis
    by (simp add: RoundTrip_def Write_Buffer Read_def Read_lines_def Scanner_tokens_def Scanner_Err_def)
qed

section \<open>The claims\<close>

text \<open>
  C1, as stated, fails. The parser emits the entry with key \<open>#k\<close> from the line
  \<open> #k = v\<close>, the entry with key \<open>[k\<close> and value \<open>v]\<close> from the line
  \<open> [k = v]\<close>, and the entry whose value ends in a backslash from a line with a space
  after the backslash. Written by \<^verbatim>\<open>Write\<close>, the first is read back as a comment, the
  second as a section header and the third as an unfinished continuation: each round trip
  returns no entry. It also emits, from two raw lines of 40001 bytes, an entry with a key
  and a value of 40000 bytes each; \<^verbatim>\<open>Write\<close> puts them on one line, on which the
  scanner stops with \<^verbatim>\<open>ErrTooLong\<close>.
\<close>

theorem C1_round_trip_counterexample:
  "Read \<lparr>content = '' #k = v'' @ [LF], failure = (None :: unit error option)\<rparr> collect [] =
     Returns None [\<lparr>Section = [], Key = ''#k'', Value = ''v''\<rparr>] \<and>
   RoundTrip [\<lparr>Section = [], Key = ''#k'', Value = ''v''\<rparr>] = (None, Returns None []) \<and>
   Read \<lparr>content = '' [k = v]'' @ [LF], failure = (None :: unit error option)\<rparr> collect [] =
     Returns None [\<lparr>Section = [], Key = ''[k'', Value = ''v]''\<rparr>] \<and>
   RoundTrip [\<lparr>Section = [], Key = ''[k'', Value = ''v]''\<rparr>] = (None, Returns None []) \<and>
   Read \<lparr>content = ''k = v'' @ [BSL] @ '' '' @ [LF], failure = (None :: unit error option)\<rparr> collect [] =
     Returns None [\<lparr>Section = [], Key = ''k'', Value = ''v'' @ [BSL]\<rparr>] \<and>
   RoundTrip [\<lparr>Section = [], Key = ''k'', Value = ''v'' @ [BSL]\<rparr>] = (None, Returns None []) \<and>
   Read \<lparr>content = replicate 40000 (CHR ''k'') @ [BSL, LF] @ ''='' @ replicate 40000 (CHR ''v''),
         failure = (None :: unit error option)\<rparr> collect [] =
     Returns None [\<lparr>Section = [], Key = replicate 40000 (CHR ''k''), Value = replicate 40000 (CHR ''v'')\<rparr>] \<and>
   RoundTrip [\<lparr>Section = [], Key = replicate 40000 (CHR ''k''), Value = replicate 40000 (CHR ''v'')\<rparr>] =
     (None, Returns (Some ErrTooLong) [])"
proof (intro conjI)
  show "Read \<lparr>content = replicate 40000 (CHR ''k'') @ [BSL, LF] @ ''='' @ replicate 40000 (CHR ''v''),
         failure = (None :: unit error option)\<rparr> collect [] =
     Returns None [\<lparr>Section = [], Key = replicate 40000 (CHR ''k''), Value = replicate 40000 (CHR ''v'')\<rparr>]"
    by (rule long_entry_parsed) (simp_all add: MaxScanTokenSize_def)
  show "RoundTrip [\<lparr>Section = [], Key = replicate 40000 (CHR ''k''), Value = replicate 40000 (CHR ''v'')\<rparr>] =
     (None, Returns (Some ErrTooLong) [])"
    by (rule long_entry_round_trip) (simp add: MaxScanTokenSize_def)
qed code_simp+

text \<open>
  C1, amended. For every entry sequence the parser produces in which no key begins with
  \<open>#\<close>, no entry has a key beginning with \<open>[\<close> together with a value ending in
  \<open>]\<close>, no value ends in a backslash, and whose text as \<^verbatim>\<open>Write\<close> writes it has no
  line of \<open>MaxScanTokenSize\<close> bytes or more, writing the sequence with \<^verbatim>\<open>Write\<close> and
  reading the text with \<^verbatim>\<open>Read\<close> gives the same sequence, in the same order, and both
  return nil. Sections, keys and values may hold newlines.
\<close>

theorem C1_round_trip_amended:
  "Read (r :: 'x Reader) collect [] = Returns res ents \<and> (\<forall>e\<in>set ents. reparsable e) \<and>
   within_token_limit (snd (Write (Buffer_Write :: (string, unit) writer) [] ents)) \<longrightarrow>
     RoundTrip ents = (None, Returns None ents)"
proof
  assume a: "Read r collect [] = Returns res ents \<and> (\<forall>e\<in>set ents. reparsable e) \<and>
    within_token_limit (snd (Write (Buffer_Write :: (string, unit) writer) [] ents))"
  let ?text = "render [] False ents"
  let ?init = "\<lparr>Section = [], Key = [], Value = []\<rparr>"
  from a have "Read r (collect :: (Entry list, 'x) callback) [] = Returns res ents" by blast
  then have p: "\<forall>e\<in>set ents. parsed e" by (rule Read_collect_parsed)
  with a have g: "\<forall>e\<in>set ents. parsed e \<and> reparsable e" by blast
  from a have lim: "\<not> snd (scan_lines ?text)"
    by (simp add: within_token_limit_def Write_Buffer)
  from read_render [OF g _ lim, of ?init "[]"] obtain ent' where
    "loop (collect :: (Entry list, unit) callback) (fst (scan_lines ?text)) ([], ?init, []) =
       Continue ([], ent', [] @ ents)"
    by auto
  with lim have "Read \<lparr>content = ?text, failure = None\<rparr> (collect :: (Entry list, unit) callback) [] =
      Returns None ents"
    by (simp add: Read_def Read_lines_def Scanner_tokens_def Scanner_Err_def)
  then show "RoundTrip ents = (None, Returns None ents)"
    by (simp add: RoundTrip_def Write_Buffer)
qed

theorem C1_round_trip_amended_witness:
  "RoundTrip [\<lparr>Section = ''multi line'' @ [LF] @ ''table'', Key = ''foo'', Value = ''bar'' @ [LF, CHR 0x09] @ ''multi''\<rparr>,
              \<lparr>Section = ''multi line'' @ [LF] @ ''table'', Key = [], Value = []\<rparr>,
              \<lparr>Section = [], Key = ''a'' @ [LF] @ ''b'', Value = ''x=y''\<rparr>] =
   (None, Returns None
     [\<lparr>Section = ''multi line'' @ [LF] @ ''table'', Key = ''foo'', Value = ''bar'' @ [LF, CHR 0x09] @ ''multi''\<rparr>,
      \<lparr>Section = ''multi line'' @ [LF] @ ''table'', Key = [], Value = []\<rparr>,
      \<lparr>Section = [], Key = ''a'' @ [LF] @ ''b'', Value = ''x=y''\<rparr>])"
proof -
  let ?ents = "[\<lparr>Section = ''multi line'' @ [LF] @ ''table'', Key = ''foo'', Value = ''bar'' @ [LF, CHR 0x09] @ ''multi''\<rparr>,
              \<lparr>Section = ''multi line'' @ [LF] @ ''table'', Key = [], Value = []\<rparr>,
              \<lparr>Section = [], Key = ''a'' @ [LF] @ ''b'', Value = ''x=y''\<rparr>]"
  let ?r = "\<lparr>content = ''[multi line'' @ [BSL, LF] @ ''table]'' @ [LF] @
      ''  foo =  bar'' @ [BSL, LF, CHR 0x09] @ ''multi  '' @ [CR, LF] @ ''='' @ [LF] @ ''# comment'' @ [LF] @
      ''[]'' @ [LF] @ ''a'' @ [BSL, LF] @ ''b=x=y'', failure = (None :: unit error option)\<rparr>"
  have "Read ?r collect [] = Returns None ?ents" by code_simp
  moreover have "\<forall>e\<in>set ?ents. reparsable e" by (simp add: reparsable_def)
  moreover have "within_token_limit (snd (Write (Buffer_Write :: (string, unit) writer) [] ?ents))"
    by code_simp
  ultimately show ?thesis
    by (intro C1_round_trip_amended [THEN mp] conjI)
qed

text \<open>
  C2. A line of white space is not discarded without a trace: its bytes stay in the line
  buffer and the next raw line is appended to them. After a line holding one space, the
  header \<open>[a]\<close> is the line \<open> [a]\<close>, which is invalid, and the comment
  \<open># c = d\<close> is an entry with the key \<open># c\<close>; without the blank line the first
  input gives one entry and the second none.
\<close>

theorem C2_blank_line_kept_in_linebuf:
  "Read \<lparr>content = '' '' @ [LF] @ ''[a]'' @ [LF] @ ''k = v'' @ [LF],
         failure = (None :: unit error option)\<rparr> collect [] =
     Returns (Some (InvalidLine '' [a]'')) [] \<and>
   Read \<lparr>content = ''[a]'' @ [LF] @ ''k = v'' @ [LF],
         failure = (None :: unit error option)\<rparr> collect [] =
     Returns None [\<lparr>Section = ''a'', Key = ''k'', Value = ''v''\<rparr>] \<and>
   Read \<lparr>content = '' '' @ [LF] @ ''# c = d'' @ [LF],
         failure = (None :: unit error option)\<rparr> collect [] =
     Returns None [\<lparr>Section = [], Key = ''# c'', Value = ''d''\<rparr>] \<and>
   Read \<lparr>content = ''# c = d'' @ [LF],
         failure = (None :: unit error option)\<rparr> collect [] =
     Returns None []"
  by (intro conjI; code_simp)



text \<open>
  C4. A raw line that ends in a backslash has the backslash replaced by a newline and the
  next raw line appended, but a raw line without a final backslash does not always
  complete the line: when the joined line is blank, the line buffer keeps it. After the
  raw line that is one backslash and an empty raw line, the buffer still holds the
  newline; the header \<open>[a]\<close> is joined to it and \<^verbatim>\<open>Read\<close> returns the invalid-line
  error, where the input without the two lines gives one entry. When the joined line is
  not blank, the raw line without a final backslash completes it: the last input gives
  the entry of the joined line and then the entry under the header.
\<close>

theorem C4_blank_joined_line_not_completed:
  "Read \<lparr>content = [BSL, LF] @ [LF] @ ''[a]'' @ [LF] @ ''k = v'' @ [LF],
         failure = (None :: unit error option)\<rparr> collect [] =
     Returns (Some (InvalidLine ([LF] @ ''[a]''))) [] \<and>
   loop (collect :: (Entry list, unit) callback) [[BSL], []]
       ([], \<lparr>Section = [], Key = [], Value = []\<rparr>, []) =
     Continue ([LF], \<lparr>Section = [], Key = [], Value = []\<rparr>, []) \<and>
   Read \<lparr>content = ''[a]'' @ [LF] @ ''k = v'' @ [LF],
         failure = (None :: unit error option)\<rparr> collect [] =
     Returns None [\<lparr>Section = ''a'', Key = ''k'', Value = ''v''\<rparr>] \<and>
   Read \<lparr>content = ''x = 1'' @ [BSL, LF] @ '' '' @ [BSL, LF] @ [LF] @ ''[a]'' @ [LF] @ ''k = v'' @ [LF],
         failure = (None :: unit error option)\<rparr> collect [] =
     Returns None [\<lparr>Section = [], Key = ''x'', Value = ''1''\<rparr>,
                   \<lparr>Section = ''a'', Key = ''k'', Value = ''v''\<rparr>]"
  by (intro conjI; code_simp)

text \<open>
  C5. A line whose first character is \<open>[\<close> and whose last is \<open>]\<close> does not always
  set the section: after a line of white space, whose bytes stay in the line buffer, the
  header \<open>[table]\<close> is the line of a tab and \<open>[table]\<close>, and \<^verbatim>\<open>Read\<close> returns the
  invalid-line error without an entry, where the input without the blank line gives the
  entry in section \<open>table\<close>. In the same way the header \<open>[new=x]\<close> after a blank
  line is taken for an entry with the key \<open>[new\<close>, in the section \<open>old\<close>.
\<close>

theorem C5_header_after_blank_line_rejected:
  "Read \<lparr>content = [CHR 0x09] @ [LF] @ ''[table]'' @ [LF] @ ''foo = bar'' @ [LF],
         failure = (None :: unit error option)\<rparr> collect [] =
     Returns (Some (InvalidLine ([CHR 0x09] @ ''[table]''))) [] \<and>
   Read \<lparr>content = ''[table]'' @ [LF] @ ''foo = bar'' @ [LF],
         failure = (None :: unit error option)\<rparr> collect [] =
     Returns None [\<lparr>Section = ''table'', Key = ''foo'', Value = ''bar''\<rparr>] \<and>
   Read \<lparr>content = ''[old]'' @ [LF] @ ''  '' @ [LF] @ ''[new=x]'' @ [LF],
         failure = (None :: unit error option)\<rparr> collect [] =
     Returns None [\<lparr>Section = ''old'', Key = ''[new'', Value = ''x]''\<rparr>]"
  by (intro conjI; code_simp)

text \<open>
  C6. \<^verbatim>\<open>Read\<close> does not always fail on the first malformed line, nor with that line's
  text: after a line of white space, whose bytes stay in the line buffer, the comment
  \<open>#c\<close> is the invalid line \<open> #c\<close>, so \<^verbatim>\<open>Read\<close> fails there and the entry before
  the malformed line \<open>foo\<close> is not emitted, where the input without the blank line
  emits it and fails on \<open>foo\<close>. And the malformed line \<open>foo\<close> after a line of two
  spaces gives an error that carries the two spaces and \<open>foo\<close>.
\<close>

theorem C6_malformed_line_after_blank_line:
  "Read \<lparr>content = '' '' @ [LF] @ ''#c'' @ [LF] @ ''k = v'' @ [LF] @ ''foo'' @ [LF],
         failure = (None :: unit error option)\<rparr> collect [] =
     Returns (Some (InvalidLine '' #c'')) [] \<and>
   Read \<lparr>content = ''#c'' @ [LF] @ ''k = v'' @ [LF] @ ''foo'' @ [LF],
         failure = (None :: unit error option)\<rparr> collect [] =
     Returns (Some (InvalidLine ''foo'')) [\<lparr>Section = [], Key = ''k'', Value = ''v''\<rparr>] \<and>
   Read \<lparr>content = ''  '' @ [LF] @ ''foo'' @ [LF],
         failure = (None :: unit error option)\<rparr> collect [] =
     Returns (Some (InvalidLine ''  foo'')) [] \<and>
   Read \<lparr>content = ''foo'' @ [LF],
         failure = (None :: unit error option)\<rparr> collect [] =
     Returns (Some (InvalidLine ''foo'')) []"
  by (intro conjI; code_simp)



text \<open>
  C8. Run on a logged sink, \<^verbatim>\<open>Write\<close> is observed: every call of the sink's
  \<^verbatim>\<open>Write\<close> but the last returned nil, so after a call that fails the sink is not
  called again, and \<^verbatim>\<open>Write\<close> returns what the last call returned: the failure
  when a call failed, nil when none did (or none was made). Logging changes nothing:
  \<^verbatim>\<open>Write\<close> on the sink itself returns the same result and leaves the same state.
\<close>

theorem C8_first_write_failure:
  "Write (logged_writer wr) (s, []) ents = (res, (s', log)) \<longrightarrow>
     (\<forall>c\<in>set (butlast log). snd c = None) \<and>
     res = (if log = [] then None else snd (last log)) \<and>
     Write wr s ents = (res, s')"
proof
  assume W: "Write (logged_writer wr) (s, []) ents = (res, (s', log))"
  have "ew_rel \<lparr>err = None, w = s\<rparr> \<lparr>err = None, w = (s, [])\<rparr>"
    by (simp add: ew_rel_def ew_inv_def ew_sim_def)
  from fold_emit_rel [OF this, of wr ents "[]" False] obtain sec' wrote' e' el' where
    f: "fold (emit (logged_writer wr)) ents ([], False, \<lparr>err = None, w = (s, [])\<rparr>) = (sec', wrote', el')"
      "fold (emit wr) ents ([], False, \<lparr>err = None, w = s\<rparr>) = (sec', wrote', e')"
      "ew_rel e' el'"
    by blast
  from W f(1) have el: "err el' = res" "w el' = (s', log)" by (simp_all add: Write_def)
  with f(3) have "err e' = res" "w e' = s'" by (simp_all add: ew_rel_def ew_sim_def)
  with f(2) have "Write wr s ents = (res, s')" by (simp add: Write_def)
  moreover from f(3) el have "\<forall>c\<in>set (butlast log). snd c = None"
    "res = (if log = [] then None else snd (last log))"
    by (simp_all add: ew_rel_def ew_inv_def)
  ultimately show "(\<forall>c\<in>set (butlast log). snd c = None) \<and>
     res = (if log = [] then None else snd (last log)) \<and>
     Write wr s ents = (res, s')"
    by blast
qed

theorem C8_first_write_failure_witness:
  "Write (\<lambda>p n. if n < (3::nat) then (None, Suc n) else (Some (Failure ''disk full''), n)) 0
     [\<lparr>Section = ''s'', Key = ''k'', Value = ''v''\<rparr>, \<lparr>Section = ''t'', Key = ''x'', Value = ''y''\<rparr>] =
   (Some (Failure ''disk full''), 3)"
proof -
  let ?wr = "\<lambda>p n. if n < (3::nat) then (None, Suc n) else (Some (Failure ''disk full''), n)"
  have "Write (logged_writer ?wr) (0, [])
     [\<lparr>Section = ''s'', Key = ''k'', Value = ''v''\<rparr>, \<lparr>Section = ''t'', Key = ''x'', Value = ''y''\<rparr>] =
    (Some (Failure ''disk full''),
     (3, [(''[s]'' @ [LF], None), (''k '', None), (''='', None), ('' v'', Some (Failure ''disk full''))]))"
    by code_simp
  from C8_first_write_failure [THEN mp, OF this, THEN conjunct2, THEN conjunct2]
  show ?thesis .
qed

text \<open>
  C9. When the last raw line ends in a backslash, \<^verbatim>\<open>Read\<close> does what it does on the
  raw lines before it, with the same final \<^verbatim>\<open>scanner.Err()\<close>: nothing is emitted for
  the partial line and no error is returned for it, and a read without another error
  returns nil. \<^verbatim>\<open>Read\<close> never panics, and on the empty input it returns nil and leaves
  the caller's state as it is, for every callback: the callback is not called.
\<close>

theorem C9_dangling_continuation:
  "(Scanner_tokens r = pre @ [tok] \<and> tok \<noteq> [] \<and> last tok = BSL \<longrightarrow>
      Read r cb u = Read_lines pre (Scanner_Err r) cb u \<and>
      (\<forall>linebuf ent u'. Scanner_Err r = None \<and>
         loop cb pre ([], \<lparr>Section = [], Key = [], Value = []\<rparr>, u) = Continue (linebuf, ent, u') \<longrightarrow>
         Read r cb u = Returns None u')) \<and>
   Read r cb u \<noteq> Panics \<and>
   Read \<lparr>content = [], failure = None\<rparr> cb u = Returns None u"
proof (intro conjI impI allI)
  assume a: "Scanner_tokens r = pre @ [tok] \<and> tok \<noteq> [] \<and> last tok = BSL"
  then show eq: "Read r cb u = Read_lines pre (Scanner_Err r) cb u"
    by (simp add: Read_def Read_lines_dangling)
  fix linebuf ent u'
  assume "Scanner_Err r = None \<and>
         loop cb pre ([], \<lparr>Section = [], Key = [], Value = []\<rparr>, u) = Continue (linebuf, ent, u')"
  then show "Read r cb u = Returns None u'"
    by (simp add: eq Read_lines_def)
next
  show "Read r cb u \<noteq> Panics"
    by (simp add: Read_def Read_lines_no_panic)
next
  show "Read \<lparr>content = [], failure = None\<rparr> cb u = Returns None u"
    by (simp add: Read_def Read_lines_def Scanner_tokens_def Scanner_Err_def)
qed

theorem C9_dangling_continuation_witness:
  "Read \<lparr>content = ''k = v'' @ [LF] @ ''foo = bar'' @ [BSL, LF], failure = (None :: unit error option)\<rparr>
     collect [] = Returns None [\<lparr>Section = [], Key = ''k'', Value = ''v''\<rparr>]"
proof -
  let ?r = "\<lparr>content = ''k = v'' @ [LF] @ ''foo = bar'' @ [BSL, LF], failure = (None :: unit error option)\<rparr>"
  have "Scanner_tokens ?r = [''k = v''] @ [''foo = bar'' @ [BSL]] \<and> ''foo = bar'' @ [BSL] \<noteq> [] \<and>
    last (''foo = bar'' @ [BSL]) = BSL"
    by code_simp
  from C9_dangling_continuation [THEN conjunct1, THEN mp, OF this, THEN conjunct1, of collect "[]"]
  have "Read ?r collect [] = Read_lines [''k = v''] (Scanner_Err ?r) collect []" .
  also have "\<dots> = Returns None [\<lparr>Section = [], Key = ''k'', Value = ''v''\<rparr>]"
    by code_simp
  finally show ?thesis .
qed

text \<open>
  C10. A final raw line that no line terminator ends is processed like any other line:
  \<^verbatim>\<open>Read\<close> does on the input what it does on the input with the terminator added. The
  input that is the single byte \<open>=\<close> gives one entry with empty section, key and value,
  and \<^verbatim>\<open>Read\<close> returns nil.
\<close>

theorem C10_final_line_without_terminator:
  "(d \<noteq> [] \<and> last d \<noteq> LF \<longrightarrow>
      Read \<lparr>content = d, failure = f\<rparr> cb u = Read \<lparr>content = d @ [LF], failure = f\<rparr> cb u) \<and>
   Read \<lparr>content = ''='', failure = (None :: unit error option)\<rparr> collect [] =
     Returns None [\<lparr>Section = [], Key = [], Value = []\<rparr>]"
proof (intro conjI impI)
  assume "d \<noteq> [] \<and> last d \<noteq> LF"
  then have "scan_lines (d @ [LF]) = scan_lines d" by (simp add: scan_lines_final_LF)
  then show "Read \<lparr>content = d, failure = f\<rparr> cb u = Read \<lparr>content = d @ [LF], failure = f\<rparr> cb u"
    by (simp add: Read_def Scanner_tokens_def Scanner_Err_def)
next
  show "Read \<lparr>content = ''='', failure = (None :: unit error option)\<rparr> collect [] =
     Returns None [\<lparr>Section = [], Key = [], Value = []\<rparr>]"
    by code_simp
qed

theorem C10_final_line_without_terminator_witness:
  "Read \<lparr>content = ''[s]'' @ [LF] @ ''k = v'', failure = (None :: unit error option)\<rparr> collect [] =
     Read \<lparr>content = ''[s]'' @ [LF] @ ''k = v'' @ [LF], failure = None\<rparr> collect [] \<and>
   Read \<lparr>content = ''[s]'' @ [LF] @ ''k = v'', failure = (None :: unit error option)\<rparr> collect [] =
     Returns None [\<lparr>Section = ''s'', Key = ''k'', Value = ''v''\<rparr>]"
proof
  show "Read \<lparr>content = ''[s]'' @ [LF] @ ''k = v'', failure = (None :: unit error option)\<rparr> collect [] =
     Read \<lparr>content = ''[s]'' @ [LF] @ ''k = v'' @ [LF], failure = None\<rparr> collect []"
    using C10_final_line_without_terminator [of "''[s]'' @ [LF] @ ''k = v''" "None :: unit error option"
        "collect :: (Entry list, unit) callback" "[]"]
    by simp
next
  show "Read \<lparr>content = ''[s]'' @ [LF] @ ''k = v'', failure = (None :: unit error option)\<rparr> collect [] =
     Returns None [\<lparr>Section = ''s'', Key = ''k'', Value = ''v''\<rparr>]"
    by code_simp
qed

end
